theory Spec2Isabelle
  imports Main
begin

section \<open>The cache serializer of pyright: a shallow embedding\<close>

text \<open>
  The development models \<^verbatim>\<open>packages/pyright-internal/src/common/cacheSerializer.ts\<close>:
  the class \<^verbatim>\<open>CacheSerializer\<close> (the structural codec: \<^verbatim>\<open>serialize\<close>,
  \<^verbatim>\<open>deserialize\<close>, \<^verbatim>\<open>_serializeValue\<close>, \<^verbatim>\<open>_deserializeValue\<close> and the three
  type guards) and the class \<^verbatim>\<open>SimpleSerializer\<close> (the flat codec).

  The program walks a graph of host objects that have identity and may be cyclic, so the
  input of the encoder is a heap (a list of objects addressed by their index) and a root
  value. What the encoder builds, what \<^verbatim>\<open>JSON.parse\<close> returns and what the decoder
  builds are fresh trees, so they are datatypes. Exceptions are values; the mutable
  serialization context is passed through every call and returned, also when the call
  raises, since a \<^verbatim>\<open>catch\<close> does not undo the writes made before the \<^verbatim>\<open>throw\<close>.
\<close>

subsection \<open>Host values and the heap\<close>

text \<open>
  Numbers are modelled by integers: the finite integral doubles. \<^verbatim>\<open>NaN\<close>, the infinities,
  fractions, symbols and big integers are outside the model. A function value carries no
  data, since the program only asks for its \<^verbatim>\<open>typeof\<close>.
\<close>

type_synonym addr = nat

datatype jsval = VUndefined | VNull | VBool bool | VNum int | VStr string | VFun | VRef addr

fun typeof :: "jsval \<Rightarrow> string" where
  "typeof VUndefined = ''undefined''"
| "typeof VNull = ''object''"
| "typeof (VBool b) = ''boolean''"
| "typeof (VNum n) = ''number''"
| "typeof (VStr s) = ''string''"
| "typeof VFun = ''function''"
| "typeof (VRef a) = ''object''"

datatype error = Error string | TypeError string | SyntaxError string | RangeError string

fun error_to_string :: "error \<Rightarrow> string" where
  "error_to_string (Error m) = ''Error: '' @ m"
| "error_to_string (TypeError m) = ''TypeError: '' @ m"
| "error_to_string (SyntaxError m) = ''SyntaxError: '' @ m"
| "error_to_string (RangeError m) = ''RangeError: '' @ m"

text \<open>
  A property of an object, as a read sees it: its name, whether it is the object's own or
  inherited from the prototype chain, whether it is enumerable, and what reading it does:
  it yields a value, or it runs an accessor that raises. The list \<open>props\<close> of an object
  holds one entry for each visible name (an own property hides an inherited one), in the
  order in which \<^verbatim>\<open>for ... in\<close> enumerates them. Property names are strings.

  The \<open>internal\<close> part of an object is what \<^verbatim>\<open>instanceof\<close> and \<^verbatim>\<open>Array.isArray\<close>
  see: the elements of an array, the time value of a \<^verbatim>\<open>Date\<close> by its ISO string (\<open>None\<close> for
  an invalid date, on which \<^verbatim>\<open>toISOString\<close> raises a \<^verbatim>\<open>RangeError\<close>), source and flags of a
  \<^verbatim>\<open>RegExp\<close>, the entries of a \<^verbatim>\<open>Map\<close> and the members of a \<^verbatim>\<open>Set\<close> in insertion order.
\<close>

datatype slot = Data jsval | Accessor_throws error

record property =
  name :: string
  own :: bool
  enumerable :: bool
  slot :: slot

text \<open>
  Modelled from the spec: the class \<^verbatim>\<open>TextRangeCollection\<close> is imported from
  \<^verbatim>\<open>./textRangeCollection\<close>, which is not among the sources. The spec calls it an indexable,
  countable sequence of text ranges: \<^verbatim>\<open>count\<close> is the number of items and
  \<^verbatim>\<open>getItemAt(i)\<close> is the \<open>i\<close>-th item; its constructor stores the items it is given.
  The encoder reads \<^verbatim>\<open>value.count\<close> and calls \<^verbatim>\<open>value.getItemAt(i)\<close> once for each
  item; the spec does not say what the class does when a property of the object hides
  \<^verbatim>\<open>count\<close> with a value that is not the number of items, and \<open>collection_calls\<close>, below,
  gives no answer then.
\<close>

datatype internal =
    Ordinary
  | ArrayOf "jsval list"
  | DateOf "string option"
  | RegExpOf string string
  | MapOf "(jsval \<times> jsval) list"
  | SetOf "jsval list"
  | TextRangeCollectionOf "jsval list"

record object =
  internal :: internal
  props :: "property list"

type_synonym heap = "object list"

text \<open>
  A call returns, raises, or is \<open>Stuck\<close>: the model has no answer, because the recursion
  budget is used up, a reference points outside the heap, or the program calls a function
  that is a value of the heap, whose body the model does not have. On a heap whose
  references stay inside it and on which no such call is made, the walk of the encoder is
  never \<open>Stuck\<close> with the budget that \<open>serialize\<close> gives it.
\<close>

datatype 'a outcome = Returns 'a | Throws error | Stuck

fun wrap :: "('a \<Rightarrow> 'b) \<Rightarrow> 'a outcome \<times> 's \<Rightarrow> 'b outcome \<times> 's" where
  "wrap f (r, c) = (map_outcome f r, c)"

subsection \<open>Reading properties\<close>

text \<open>
  \<open>read\<close> is the member access \<^verbatim>\<open>value.k\<close> and \<^verbatim>\<open>value[k]\<close>, \<open>has_property\<close> the
  operator \<^verbatim>\<open>k in value\<close>, \<open>hasOwnProperty\<close> the call
  \<^verbatim>\<open>Object.prototype.hasOwnProperty.call(value, k)\<close> and \<open>for_in_keys\<close> the keys
  \<^verbatim>\<open>for (const key in value)\<close> runs through. The \<^verbatim>\<open>length\<close> of an array is an own
  property that is not enumerable. The properties every object inherits from the host's
  \<^verbatim>\<open>Object.prototype\<close> have none of the names the program reads.
\<close>

definition find_prop :: "object \<Rightarrow> string \<Rightarrow> property option" where
  "find_prop obj k = find (\<lambda>p. name p = k) (props obj)"

definition is_array :: "object \<Rightarrow> bool" where
  "is_array obj = (case internal obj of ArrayOf xs \<Rightarrow> True | _ \<Rightarrow> False)"

definition read :: "object \<Rightarrow> string \<Rightarrow> error + jsval" where
  "read obj k =
    (case (internal obj, k = ''length'') of
      (ArrayOf xs, True) \<Rightarrow> Inr (VNum (int (length xs)))
    | _ \<Rightarrow>
      (case find_prop obj k of
        None \<Rightarrow> Inr VUndefined
      | Some p \<Rightarrow> (case slot p of Data v \<Rightarrow> Inr v | Accessor_throws e \<Rightarrow> Inl e)))"

definition has_property :: "object \<Rightarrow> string \<Rightarrow> bool" where
  "has_property obj k = ((is_array obj \<and> k = ''length'') \<or> find_prop obj k \<noteq> None)"

definition hasOwnProperty :: "object \<Rightarrow> string \<Rightarrow> bool" where
  "hasOwnProperty obj k =
    ((is_array obj \<and> k = ''length'') \<or> (case find_prop obj k of None \<Rightarrow> False | Some p \<Rightarrow> own p))"

definition for_in_keys :: "object \<Rightarrow> string list" where
  "for_in_keys obj = map name (filter enumerable (props obj))"

text \<open>
  The program calls methods that the class of an object supplies: \<^verbatim>\<open>value.toISOString()\<close>
  on a \<^verbatim>\<open>Date\<close>, \<^verbatim>\<open>value.entries()\<close> on a \<^verbatim>\<open>Map\<close>, \<^verbatim>\<open>value.map(...)\<close> on an array. Such a
  call looks the name up on the object first, and \<open>lookup_method\<close> is that lookup.
  When no property of the object hides the name, the call reaches the class and
  \<open>lookup_method\<close> returns. When a property hides it, the call raises what the
  accessor raises, or a \<^verbatim>\<open>TypeError\<close> when the property holds a value that is not a
  function; when it holds a function, the program runs code that the model does not have.
  (\<^verbatim>\<open>Array.from(value)\<close> on a \<^verbatim>\<open>Set\<close> finds the iterator under a symbol, which no
  property with a string for its name can hide.)

  \<open>read_accessor\<close> is the read \<^verbatim>\<open>value.k\<close> of a name for which the class supplies an
  accessor (\<^verbatim>\<open>source\<close> and \<^verbatim>\<open>flags\<close> of a \<^verbatim>\<open>RegExp\<close>): a property of the object that
  hides the accessor is read in its place. The accessor \<^verbatim>\<open>flags\<close> is taken to yield the
  flags the object was built with.
\<close>

definition lookup_method :: "object \<Rightarrow> string \<Rightarrow> unit outcome" where
  "lookup_method obj m =
    (case find_prop obj m of
      None \<Rightarrow> Returns ()
    | Some p \<Rightarrow>
        (case slot p of
          Accessor_throws e \<Rightarrow> Throws e
        | Data f \<Rightarrow>
            if typeof f = ''function'' then Stuck
            else Throws (TypeError (''value.'' @ m @ '' is not a function''))))"

definition read_accessor :: "object \<Rightarrow> string \<Rightarrow> jsval \<Rightarrow> error + jsval" where
  "read_accessor obj k inherited =
    (case find_prop obj k of
      None \<Rightarrow> Inr inherited
    | Some p \<Rightarrow> (case slot p of Data v \<Rightarrow> Inr v | Accessor_throws e \<Rightarrow> Inl e))"

text \<open>
  The reads and calls that the encoder makes on a range collection with the items \<open>xs\<close>:
  it reads \<^verbatim>\<open>value.count\<close> and, when there is an item, calls \<^verbatim>\<open>value.getItemAt\<close>.
\<close>

definition collection_calls :: "object \<Rightarrow> jsval list \<Rightarrow> unit outcome" where
  "collection_calls obj xs =
    (case read_accessor obj ''count'' (VNum (int (length xs))) of
      Inl e \<Rightarrow> Throws e
    | Inr n \<Rightarrow>
        if n \<noteq> VNum (int (length xs)) then Stuck
        else if xs = [] then Returns ()
        else lookup_method obj ''getItemAt'')"

subsection \<open>Encoded trees, JSON values and texts\<close>

text \<open>
  The encoder returns fresh arrays and object literals whose leaves are host values:
  scalars, \<^verbatim>\<open>undefined\<close>, and the values it copies without encoding them
  (\<^verbatim>\<open>category\<close>, \<^verbatim>\<open>message\<close>, \<^verbatim>\<open>nodeType\<close>, \<^verbatim>\<open>id\<close>). \<^verbatim>\<open>JSON.parse\<close> returns a value
  of type \<open>json\<close>. An association list holds the keys of a fresh object in enumeration order.

  A text is modelled by what the host's \<^verbatim>\<open>JSON.parse\<close> makes of it: the JSON value it
  denotes, or the message of the \<^verbatim>\<open>SyntaxError\<close> raised on it. White space and the
  indentation argument of \<^verbatim>\<open>JSON.stringify\<close> do not change the value a text denotes.
\<close>

datatype tree = Raw jsval | TArr "tree list" | TObj "(string \<times> tree) list"

datatype json = JNull | JBool bool | JNum int | JStr string
  | JArr "json list" | JObj "(string \<times> json) list"

datatype raw_text = Text json | NotJSON string

fun JSON_parse :: "raw_text \<Rightarrow> error + json" where
  "JSON_parse (Text j) = Inr j"
| "JSON_parse (NotJSON m) = Inl (SyntaxError m)"

text \<open>
  The assignment \<^verbatim>\<open>obj[key] = v\<close> on a fresh object literal: it replaces the value of
  an existing key and appends a new one; with the key \<^verbatim>\<open>__proto__\<close> it calls the
  inherited setter and creates no own property.
\<close>

fun set_prop :: "(string \<times> 'a) list \<Rightarrow> string \<Rightarrow> 'a \<Rightarrow> (string \<times> 'a) list" where
  "set_prop [] k v = (if k = ''__proto__'' then [] else [(k, v)])"
| "set_prop ((k', v') # ps) k v =
     (if k = ''__proto__'' then (k', v') # ps
      else if k' = k then (k', v) # ps else (k', v') # set_prop ps k v)"

subsection \<open>The host's \<^verbatim>\<open>JSON.stringify\<close>\<close>

text \<open>
  \<open>SerializeJSONProperty\<close> follows the operation of that name in the language standard:
  a \<^verbatim>\<open>Date\<close> is first replaced by the result of its \<^verbatim>\<open>toJSON\<close> method (its ISO string,
  or \<^verbatim>\<open>null\<close> when it is invalid; no other object is taken to have such a method),
  then the replacer function, if there is one, is applied,
  and then the value is written: \<^verbatim>\<open>undefined\<close> and functions are left out of objects and
  become \<^verbatim>\<open>null\<close> in arrays, an array is written by its elements, any other object by
  its own enumerable properties, and an object met again below itself raises a
  \<^verbatim>\<open>TypeError\<close>. The replacer of this program ignores its key argument, so the model
  passes it the value only. The budget \<open>n\<close> bounds the nesting depth.
\<close>

type_synonym 's replacer = "heap \<Rightarrow> tree \<Rightarrow> 's \<Rightarrow> tree outcome \<times> 's"

definition toJSON :: "heap \<Rightarrow> tree \<Rightarrow> tree" where
  "toJSON h t =
    (case t of
      Raw (VRef a) \<Rightarrow>
        if a < length h then
          (case internal (h ! a) of
            DateOf d \<Rightarrow> (case d of Some isoString \<Rightarrow> Raw (VStr isoString) | None \<Rightarrow> Raw VNull)
          | _ \<Rightarrow> t)
        else t
    | _ \<Rightarrow> t)"

definition own_enumerable_keys :: "object \<Rightarrow> string list" where
  "own_enumerable_keys obj = map name (filter (\<lambda>p. own p \<and> enumerable p) (props obj))"

function (sequential)
  SerializeJSONProperty :: "nat \<Rightarrow> 's replacer option \<Rightarrow> heap \<Rightarrow> addr list \<Rightarrow> tree \<Rightarrow> 's \<Rightarrow>
    json option outcome \<times> 's"
and SerializeJSONValue :: "nat \<Rightarrow> 's replacer option \<Rightarrow> heap \<Rightarrow> addr list \<Rightarrow> tree \<Rightarrow> 's \<Rightarrow>
    json option outcome \<times> 's"
and SerializeJSONArray :: "nat \<Rightarrow> 's replacer option \<Rightarrow> heap \<Rightarrow> addr list \<Rightarrow> tree list \<Rightarrow> 's \<Rightarrow>
    json list outcome \<times> 's"
and SerializeJSONObject :: "nat \<Rightarrow> 's replacer option \<Rightarrow> heap \<Rightarrow> addr list \<Rightarrow>
    (string \<times> (error + tree)) list \<Rightarrow> 's \<Rightarrow> (string \<times> json) list outcome \<times> 's"
where
  "SerializeJSONProperty 0 rep h stack v st = (Stuck, st)"
| "SerializeJSONProperty (Suc n) rep h stack v st =
    (case rep of
      None \<Rightarrow> SerializeJSONValue n rep h stack (toJSON h v) st
    | Some f \<Rightarrow>
        (case f h (toJSON h v) st of
          (Returns v', st') \<Rightarrow> SerializeJSONValue n rep h stack v' st'
        | (Throws e, st') \<Rightarrow> (Throws e, st')
        | (Stuck, st') \<Rightarrow> (Stuck, st')))"
| "SerializeJSONValue n rep h stack (Raw VNull) st = (Returns (Some JNull), st)"
| "SerializeJSONValue n rep h stack (Raw (VBool b)) st = (Returns (Some (JBool b)), st)"
| "SerializeJSONValue n rep h stack (Raw (VNum x)) st = (Returns (Some (JNum x)), st)"
| "SerializeJSONValue n rep h stack (Raw (VStr s)) st = (Returns (Some (JStr s)), st)"
| "SerializeJSONValue n rep h stack (Raw VUndefined) st = (Returns None, st)"
| "SerializeJSONValue n rep h stack (Raw VFun) st = (Returns None, st)"
| "SerializeJSONValue n rep h stack (Raw (VRef a)) st =
    (if \<not> a < length h then (Stuck, st)
     else if a \<in> set stack then (Throws (TypeError ''Converting circular structure to JSON''), st)
     else
      (case internal (h ! a) of
        ArrayOf xs \<Rightarrow>
          wrap (\<lambda>js. Some (JArr js)) (SerializeJSONArray n rep h (a # stack) (map Raw xs) st)
      | _ \<Rightarrow>
          wrap (\<lambda>kvs. Some (JObj kvs))
            (SerializeJSONObject n rep h (a # stack)
              (map (\<lambda>k. (k, map_sum id Raw (read (h ! a) k))) (own_enumerable_keys (h ! a))) st)))"
| "SerializeJSONValue n rep h stack (TArr ts) st =
    wrap (\<lambda>js. Some (JArr js)) (SerializeJSONArray n rep h stack ts st)"
| "SerializeJSONValue n rep h stack (TObj kvs) st =
    wrap (\<lambda>kvs. Some (JObj kvs))
      (SerializeJSONObject n rep h stack (map (\<lambda>(k, t). (k, Inr t)) kvs) st)"
| "SerializeJSONArray n rep h stack [] st = (Returns [], st)"
| "SerializeJSONArray n rep h stack (t # ts) st =
    (case SerializeJSONProperty n rep h stack t st of
      (Returns j, st') \<Rightarrow>
        wrap ((#) (case j of None \<Rightarrow> JNull | Some x \<Rightarrow> x)) (SerializeJSONArray n rep h stack ts st')
    | (Throws e, st') \<Rightarrow> (Throws e, st')
    | (Stuck, st') \<Rightarrow> (Stuck, st'))"
| "SerializeJSONObject n rep h stack [] st = (Returns [], st)"
| "SerializeJSONObject n rep h stack ((k, Inl e) # kvs) st = (Throws e, st)"
| "SerializeJSONObject n rep h stack ((k, Inr t) # kvs) st =
    (case SerializeJSONProperty n rep h stack t st of
      (Returns j, st') \<Rightarrow>
        wrap (\<lambda>rest. case j of None \<Rightarrow> rest | Some x \<Rightarrow> (k, x) # rest)
          (SerializeJSONObject n rep h stack kvs st')
    | (Throws e, st') \<Rightarrow> (Throws e, st')
    | (Stuck, st') \<Rightarrow> (Stuck, st'))"
  by pat_completeness auto

termination
  by (relation "inv_image (less_than <*lex*> less_than <*lex*> less_than) (\<lambda>x. case x of
      Inl (Inl (n, r, h, s, v, c)) \<Rightarrow> (n, 0::nat, 0::nat)
    | Inl (Inr (n, r, h, s, v, c)) \<Rightarrow> (n, 2, 0)
    | Inr (Inl (n, r, h, s, ts, c)) \<Rightarrow> (n, 1, length ts)
    | Inr (Inr (n, r, h, s, kvs, c)) \<Rightarrow> (n, 1, length kvs))") auto

fun tree_depth :: "tree \<Rightarrow> nat" where
  "tree_depth (Raw v) = 0"
| "tree_depth (TArr ts) = Suc (fold max (map tree_depth ts) 0)"
| "tree_depth (TObj kvs) = Suc (fold max (map (\<lambda>(k, t). tree_depth t) kvs) 0)"

definition JSON_stringify :: "'s replacer option \<Rightarrow> heap \<Rightarrow> tree \<Rightarrow> 's \<Rightarrow> raw_text option outcome \<times> 's" where
  "JSON_stringify rep h v st =
     wrap (map_option Text) (SerializeJSONProperty (Suc (tree_depth v + length h)) rep h [] v st)"

subsection \<open>The structural codec: decoding\<close>

text \<open>
  The decoder builds fresh values, so its result is a tree. \<open>DDate x\<close> is the object
  \<^verbatim>\<open>new Date(x)\<close>, \<open>DRegExp s f\<close> the object \<^verbatim>\<open>new RegExp(s, f)\<close>; \<open>DMap\<close> and \<open>DSet\<close> hold
  entries and members in insertion order. The date whose \<^verbatim>\<open>toISOString()\<close> is \<open>s\<close> is
  \<open>DDate (JStr s)\<close>. \<open>of_json\<close> is a parsed JSON value taken as it is.
\<close>

datatype dval = DUndefined | DNull | DBool bool | DNum int | DStr string
  | DDate json
  | DRegExp "json option" "json option"
  | DMap "(dval \<times> dval) list"
  | DSet "dval list"
  | DTextRangeCollection dval
  | DArray "dval list"
  | DObject "(string \<times> dval) list"

text \<open>\<open>get\<close> is a member access on a parsed value; \<open>None\<close> is \<^verbatim>\<open>undefined\<close>. Strings
  and arrays have a \<^verbatim>\<open>length\<close>; the decoder reads no index through \<open>get\<close>.\<close>

fun get :: "json \<Rightarrow> string \<Rightarrow> json option" where
  "get (JObj kvs) k = map_of kvs k"
| "get (JArr xs) k = (if k = ''length'' then Some (JNum (int (length xs))) else None)"
| "get (JStr s) k = (if k = ''length'' then Some (JNum (int (length s))) else None)"
| "get _ k = None"

lemma size_map_of: "map_of kvs k = Some x \<Longrightarrow> size x < Suc (size_list (size_prod (\<lambda>_. 0) size) kvs)"
  by (induction kvs) (auto split: if_splits)

lemma size_get: "get j k = Some x \<Longrightarrow> size x \<le> size j"
  by (cases j) (auto split: if_splits dest: size_map_of)

fun osize :: "json option \<Rightarrow> nat" where
  "osize None = 0"
| "osize (Some j) = Suc (size j)"

fun truthy :: "json option \<Rightarrow> bool" where
  "truthy None = False"
| "truthy (Some JNull) = False"
| "truthy (Some (JBool b)) = b"
| "truthy (Some (JNum n)) = (n \<noteq> 0)"
| "truthy (Some (JStr s)) = (s \<noteq> [])"
| "truthy (Some _) = True"

fun of_json :: "json \<Rightarrow> dval" where
  "of_json JNull = DNull"
| "of_json (JBool b) = DBool b"
| "of_json (JNum n) = DNum n"
| "of_json (JStr s) = DStr s"
| "of_json (JArr xs) = DArray (map of_json xs)"
| "of_json (JObj kvs) = DObject (map (\<lambda>(k, v). (k, of_json v)) kvs)"

fun of_json_opt :: "json option \<Rightarrow> dval" where
  "of_json_opt None = DUndefined"
| "of_json_opt (Some j) = of_json j"

fun nth_opt :: "'a list \<Rightarrow> nat \<Rightarrow> 'a option" where
  "nth_opt [] n = None"
| "nth_opt (x # xs) 0 = Some x"
| "nth_opt (x # xs) (Suc n) = nth_opt xs n"

fun destructure_pair :: "json \<Rightarrow> error + (json option \<times> json option)" where
  "destructure_pair (JArr xs) = Inr (nth_opt xs 0, nth_opt xs 1)"
| "destructure_pair (JStr s) =
     Inr (map_option (\<lambda>c. JStr [c]) (nth_opt s 0), map_option (\<lambda>c. JStr [c]) (nth_opt s 1))"
| "destructure_pair _ = Inl (TypeError ''object is not iterable'')"

fun is_primitive :: "dval \<Rightarrow> bool" where
  "is_primitive DUndefined = True"
| "is_primitive DNull = True"
| "is_primitive (DBool b) = True"
| "is_primitive (DNum n) = True"
| "is_primitive (DStr s) = True"
| "is_primitive _ = False"

fun Map_set :: "(dval \<times> dval) list \<Rightarrow> dval \<Rightarrow> dval \<Rightarrow> (dval \<times> dval) list" where
  "Map_set [] k v = [(k, v)]"
| "Map_set ((k', v') # m) k v =
     (if is_primitive k \<and> k' = k then (k', v) # m else (k', v') # Map_set m k v)"

definition Map_new :: "(dval \<times> dval) list \<Rightarrow> (dval \<times> dval) list" where
  "Map_new entries = foldl (\<lambda>m (k, v). Map_set m k v) [] entries"

definition Set_add :: "dval list \<Rightarrow> dval \<Rightarrow> dval list" where
  "Set_add s v = (if is_primitive v \<and> v \<in> set s then s else s @ [v])"

definition Set_new :: "dval list \<Rightarrow> dval list" where
  "Set_new vs = foldl Set_add [] vs"

text \<open>
  The only state of the decoder is the map from identities to reconstructed values. No
  statement of the program writes to it, so the model passes it to every call unchanged.
  The keys of a host \<^verbatim>\<open>Map\<close> are compared by identity when they are objects: a parsed
  array or object is never found.

  \<open>new RegExp(source, flags)\<close> raises a \<^verbatim>\<open>SyntaxError\<close> on a pattern or on flags the host
  does not accept. Which ones it accepts is a parameter \<open>H\<close> of the decoder.
\<close>

record DeserializationContext =
  resolved :: "json \<rightharpoonup> dval"

fun refs_has :: "DeserializationContext \<Rightarrow> json \<Rightarrow> bool" where
  "refs_has context (JArr xs) = False"
| "refs_has context (JObj kvs) = False"
| "refs_has context refId = (resolved context refId \<noteq> None)"

fun refs_get :: "DeserializationContext \<Rightarrow> json \<Rightarrow> dval" where
  "refs_get context refId = (case resolved context refId of Some v \<Rightarrow> v | None \<Rightarrow> DUndefined)"

type_synonym host = "json option \<Rightarrow> json option \<Rightarrow> bool"

lemma size_nth_opt: "nth_opt xs n = Some x \<Longrightarrow> size x < Suc (size_list size xs)"
  by (induction xs n rule: nth_opt.induct) auto

lemma osize_destructure:
  "destructure_pair e = Inr (k, v) \<Longrightarrow> osize k \<le> Suc (size e) \<and> osize v \<le> Suc (size e)"
  by (cases e; cases k; cases v) (auto dest!: size_nth_opt)

lemma osize_get: "osize (get j k) \<le> Suc (size j)"
  by (cases "get j k") (auto dest: size_get)

function (sequential)
  deserializeValue :: "host \<Rightarrow> json option \<Rightarrow> DeserializationContext \<Rightarrow> json option \<Rightarrow> error + dval"
and deserializeItems :: "host \<Rightarrow> json list \<Rightarrow> DeserializationContext \<Rightarrow> json option \<Rightarrow> error + dval list"
and deserializeEntries :: "host \<Rightarrow> json list \<Rightarrow> DeserializationContext \<Rightarrow> json option \<Rightarrow> error + (dval \<times> dval) list"
and deserializeProps :: "host \<Rightarrow> (string \<times> json) list \<Rightarrow> (string \<times> dval) list \<Rightarrow> DeserializationContext \<Rightarrow> json option \<Rightarrow> error + (string \<times> dval) list"
where
  "deserializeValue H None context refs = Inr DUndefined"
| "deserializeValue H (Some JNull) context refs = Inr DNull"
| "deserializeValue H (Some (JBool b)) context refs = Inr (DBool b)"
| "deserializeValue H (Some (JNum n)) context refs = Inr (DNum n)"
| "deserializeValue H (Some (JStr s)) context refs = Inr (DStr s)"
| "deserializeValue H (Some value) context refs =
    (case get value ''__Circular__'' of
      Some refId \<Rightarrow>
        if refs_has context refId then Inr (refs_get context refId) else Inr DNull
    | None \<Rightarrow>
    (case get value ''__Date__'' of
      Some d \<Rightarrow> Inr (DDate d)
    | None \<Rightarrow>
    (case get value ''__RegExp__'' of
      Some r \<Rightarrow>
        if r = JNull then Inl (TypeError ''Cannot destructure null'')
        else if H (get r ''source'') (get r ''flags'')
          then Inr (DRegExp (get r ''source'') (get r ''flags''))
          else Inl (SyntaxError ''Invalid regular expression'')
    | None \<Rightarrow>
    (case get value ''__Map__'' of
      Some m \<Rightarrow>
        (case m of
          JArr es \<Rightarrow>
            (case deserializeEntries H es context refs of
              Inl e \<Rightarrow> Inl e
            | Inr entries \<Rightarrow> Inr (DMap (Map_new entries)))
        | _ \<Rightarrow> Inl (TypeError ''map is not a function''))
    | None \<Rightarrow>
    (case get value ''__Set__'' of
      Some s \<Rightarrow>
        (case s of
          JArr xs \<Rightarrow>
            (case deserializeItems H xs context refs of
              Inl e \<Rightarrow> Inl e
            | Inr values \<Rightarrow> Inr (DSet (Set_new values)))
        | _ \<Rightarrow> Inl (TypeError ''map is not a function''))
    | None \<Rightarrow>
    (case get value ''__TextRange__'' of
      Some r \<Rightarrow>
        if r = JNull then Inl (TypeError ''Cannot destructure null'')
        else Inr (DObject [(''start'', of_json_opt (get r ''start'')),
                           (''length'', of_json_opt (get r ''length''))])
    | None \<Rightarrow>
    (case get value ''__TextRangeCollection__'' of
      Some c \<Rightarrow>
        if c = JNull then Inl (TypeError ''Cannot read properties of null'')
        else
          (case deserializeValue H (get c ''items'') context refs of
            Inl e \<Rightarrow> Inl e
          | Inr items \<Rightarrow> Inr (DTextRangeCollection items))
    | None \<Rightarrow>
    (case get value ''__ParseNode__'' of
      Some p \<Rightarrow>
        if p = JNull then Inl (TypeError ''Cannot destructure null'')
        else Inr (DObject [(''nodeType'', of_json_opt (get p ''nodeType'')),
                           (''id'', of_json_opt (get p ''id'')),
                           (''start'', of_json_opt (get p ''start'')),
                           (''length'', of_json_opt (get p ''length''))])
    | None \<Rightarrow>
    (case get value ''__Diagnostic__'' of
      Some d \<Rightarrow>
        if d = JNull then Inl (TypeError ''Cannot destructure null'')
        else
          (case deserializeValue H (get d ''range'') context refs of
            Inl e \<Rightarrow> Inl e
          | Inr range' \<Rightarrow>
              Inr (DObject [(''category'', of_json_opt (get d ''category'')),
                            (''message'', of_json_opt (get d ''message'')),
                            (''range'', range')]))
    | None \<Rightarrow>
    (case value of
      JArr xs \<Rightarrow>
        (case deserializeItems H xs context refs of
          Inl e \<Rightarrow> Inl e
        | Inr items \<Rightarrow> Inr (DArray items))
    | JObj kvs \<Rightarrow>
        (case deserializeProps H kvs [] context refs of
          Inl e \<Rightarrow> Inl e
        | Inr deserialized \<Rightarrow> Inr (DObject deserialized))
    | _ \<Rightarrow> Inr DUndefined))))))))))"
| "deserializeItems H [] context refs = Inr []"
| "deserializeItems H (item # items) context refs =
    (case deserializeValue H (Some item) context refs of
      Inl e \<Rightarrow> Inl e
    | Inr v \<Rightarrow>
        (case deserializeItems H items context refs of
          Inl e \<Rightarrow> Inl e
        | Inr vs \<Rightarrow> Inr (v # vs)))"
| "deserializeEntries H [] context refs = Inr []"
| "deserializeEntries H (entry # entries) context refs =
    (case destructure_pair entry of
      Inl e \<Rightarrow> Inl e
    | Inr (k, v) \<Rightarrow>
        (case deserializeValue H k context refs of
          Inl e \<Rightarrow> Inl e
        | Inr k' \<Rightarrow>
            (case deserializeValue H v context refs of
              Inl e \<Rightarrow> Inl e
            | Inr v' \<Rightarrow>
                (case deserializeEntries H entries context refs of
                  Inl e \<Rightarrow> Inl e
                | Inr rest \<Rightarrow> Inr ((k', v') # rest)))))"
| "deserializeProps H [] deserialized context refs = Inr deserialized"
| "deserializeProps H ((key, v) # kvs) deserialized context refs =
    (case deserializeValue H (Some v) context refs of
      Inl e \<Rightarrow> Inl e
    | Inr v' \<Rightarrow> deserializeProps H kvs (set_prop deserialized key v') context refs)"
  by pat_completeness auto

termination
  apply (relation "measure (\<lambda>x. case x of
      Inl (Inl (H, v, c, r)) \<Rightarrow> osize v
    | Inl (Inr (H, xs, c, r)) \<Rightarrow> Suc (size_list size xs)
    | Inr (Inl (H, es, c, r)) \<Rightarrow> Suc (size_list size es)
    | Inr (Inr (H, kvs, acc, c, r)) \<Rightarrow> Suc (size_list (size_prod (\<lambda>_. 0) size) kvs))")
  apply (auto dest!: size_map_of size_get osize_destructure split: if_splits)
  subgoal for v x2 using osize_get [of x2 "''range''"] by linarith
  subgoal for v x2 using osize_get [of x2 "''items''"] by linarith
  done

definition deserialize :: "host \<Rightarrow> raw_text \<Rightarrow> error + dval" where
  "deserialize H json =
    (case
      (case JSON_parse json of
        Inl e \<Rightarrow> Inl e
      | Inr parsed \<Rightarrow>
          if parsed = JNull then Inl (TypeError ''Cannot read properties of null'')
          else if \<not> truthy (get parsed ''version'') \<or> get parsed ''version'' \<noteq> Some (JNum 1)
            then Inl (Error ''Unsupported cache version'')
          else deserializeValue H (get parsed ''data'') \<lparr>resolved = Map.empty\<rparr> (get parsed ''refs''))
     of
      Inl e \<Rightarrow> Inl (Error (''Failed to deserialize cache: '' @ error_to_string e))
    | Inr v \<Rightarrow> Inr v)"

subsection \<open>The structural codec: encoding\<close>

text \<open>The three type guards. A guard reads \<^verbatim>\<open>value.start\<close> and \<^verbatim>\<open>value.length\<close>, which
  runs an accessor; \<^verbatim>\<open>in\<close> does not.\<close>

definition isTextRange :: "object \<Rightarrow> error + bool" where
  "isTextRange v =
    (case read v ''start'' of
      Inl e \<Rightarrow> Inl e
    | Inr s \<Rightarrow>
        if typeof s = ''number'' then
          (case read v ''length'' of
            Inl e \<Rightarrow> Inl e
          | Inr l \<Rightarrow> Inr (typeof l = ''number''))
        else Inr False)"

definition isParseNode :: "object \<Rightarrow> error + bool" where
  "isParseNode v =
    (if has_property v ''nodeType'' \<and> has_property v ''id'' then
      (case read v ''start'' of
        Inl e \<Rightarrow> Inl e
      | Inr s \<Rightarrow>
          if typeof s = ''number'' then
            (case read v ''length'' of
              Inl e \<Rightarrow> Inl e
            | Inr l \<Rightarrow> Inr (typeof l = ''number''))
          else Inr False)
     else Inr False)"

definition isDiagnostic :: "object \<Rightarrow> bool" where
  "isDiagnostic v =
    (has_property v ''category'' \<and> has_property v ''message'' \<and> has_property v ''range'')"

record SerializationContext =
  seen :: "addr \<rightharpoonup> nat"
  refs :: "tree list"
  refCount :: nat

type_synonym 'a run = "'a outcome \<times> SerializationContext"

fun reads :: "object \<Rightarrow> string list \<Rightarrow> (string \<times> tree) list outcome" where
  "reads v [] = Returns []"
| "reads v (k # ks) =
    (case read v k of
      Inl e \<Rightarrow> Throws e
    | Inr x \<Rightarrow> map_outcome ((#) (k, Raw x)) (reads v ks))"

function (sequential) serializeValue :: "nat \<Rightarrow> heap \<Rightarrow> jsval \<Rightarrow> SerializationContext \<Rightarrow> tree run"
and serializeObject :: "nat \<Rightarrow> heap \<Rightarrow> object \<Rightarrow> SerializationContext \<Rightarrow> tree run"
and serializeItems :: "nat \<Rightarrow> heap \<Rightarrow> jsval list \<Rightarrow> SerializationContext \<Rightarrow> tree list run"
and serializeEntries :: "nat \<Rightarrow> heap \<Rightarrow> (jsval \<times> jsval) list \<Rightarrow> SerializationContext \<Rightarrow> tree list run"
and serializeProps :: "nat \<Rightarrow> heap \<Rightarrow> object \<Rightarrow> string list \<Rightarrow> (string \<times> tree) list \<Rightarrow>
    SerializationContext \<Rightarrow> (string \<times> tree) list run"
where
  "serializeValue 0 h v context = (Stuck, context)"
| "serializeValue (Suc n) h VNull context = (Returns (Raw VNull), context)"
| "serializeValue (Suc n) h VUndefined context = (Returns (Raw VUndefined), context)"
| "serializeValue (Suc n) h (VBool b) context = (Returns (Raw (VBool b)), context)"
| "serializeValue (Suc n) h (VNum x) context = (Returns (Raw (VNum x)), context)"
| "serializeValue (Suc n) h (VStr s) context = (Returns (Raw (VStr s)), context)"
| "serializeValue (Suc n) h VFun context = (Returns (Raw VUndefined), context)"
| "serializeValue (Suc n) h (VRef a) context =
    (case seen context a of
      Some refId \<Rightarrow> (Returns (TObj [(''__Circular__'', Raw (VNum (int refId)))]), context)
    | None \<Rightarrow>
        if a < length h then
          serializeObject n h (h ! a)
            (context\<lparr>refCount := refCount context + 1,
                     seen := (seen context)(a \<mapsto> refCount context)\<rparr>)
        else (Stuck, context))"
| "serializeObject n h v context =
    (case internal v of
      DateOf d \<Rightarrow>
        (case lookup_method v ''toISOString'' of
          Throws e \<Rightarrow> (Throws e, context)
        | Stuck \<Rightarrow> (Stuck, context)
        | Returns u \<Rightarrow>
            (case d of
              Some isoString \<Rightarrow> (Returns (TObj [(''__Date__'', Raw (VStr isoString))]), context)
            | None \<Rightarrow> (Throws (RangeError ''Invalid time value''), context)))
    | RegExpOf source flags \<Rightarrow>
        (case read_accessor v ''source'' (VStr source) of
          Inl e \<Rightarrow> (Throws e, context)
        | Inr s \<Rightarrow>
            (case read_accessor v ''flags'' (VStr flags) of
              Inl e \<Rightarrow> (Throws e, context)
            | Inr f \<Rightarrow>
                (Returns (TObj [(''__RegExp__'',
                   TObj [(''source'', Raw s), (''flags'', Raw f)])]), context)))
    | MapOf entries \<Rightarrow>
        (case lookup_method v ''entries'' of
          Throws e \<Rightarrow> (Throws e, context)
        | Stuck \<Rightarrow> (Stuck, context)
        | Returns u \<Rightarrow>
            wrap (\<lambda>es. TObj [(''__Map__'', TArr es)]) (serializeEntries n h entries context))
    | SetOf vs \<Rightarrow>
        wrap (\<lambda>ts. TObj [(''__Set__'', TArr ts)]) (serializeItems n h vs context)
    | _ \<Rightarrow>
      (case isTextRange v of
        Inl e \<Rightarrow> (Throws e, context)
      | Inr True \<Rightarrow>
          (map_outcome (\<lambda>fs. TObj [(''__TextRange__'', TObj fs)])
             (reads v [''start'', ''length'']), context)
      | Inr False \<Rightarrow>
      (case internal v of
        TextRangeCollectionOf xs \<Rightarrow>
          (case collection_calls v xs of
            Throws e \<Rightarrow> (Throws e, context)
          | Stuck \<Rightarrow> (Stuck, context)
          | Returns u \<Rightarrow>
              wrap (\<lambda>items. TObj [(''__TextRangeCollection__'',
                      TObj [(''items'', TArr items), (''count'', Raw (VNum (int (length xs))))])])
                (serializeItems n h xs context))
      | _ \<Rightarrow>
      (case isParseNode v of
        Inl e \<Rightarrow> (Throws e, context)
      | Inr True \<Rightarrow>
          (map_outcome (\<lambda>fs. TObj [(''__ParseNode__'', TObj fs)])
             (reads v [''nodeType'', ''id'', ''start'', ''length'']), context)
      | Inr False \<Rightarrow>
      if isDiagnostic v then
        (case reads v [''category'', ''message''] of
          Throws e \<Rightarrow> (Throws e, context)
        | Stuck \<Rightarrow> (Stuck, context)
        | Returns fs \<Rightarrow>
            (case read v ''range'' of
              Inl e \<Rightarrow> (Throws e, context)
            | Inr r \<Rightarrow>
                wrap (\<lambda>t. TObj [(''__Diagnostic__'', TObj (fs @ [(''range'', t)]))])
                  (serializeValue n h r context)))
      else
      (case internal v of
        ArrayOf xs \<Rightarrow>
          (case lookup_method v ''map'' of
            Throws e \<Rightarrow> (Throws e, context)
          | Stuck \<Rightarrow> (Stuck, context)
          | Returns u \<Rightarrow> wrap TArr (serializeItems n h xs context))
      | _ \<Rightarrow> wrap TObj (serializeProps n h v (for_in_keys v) [] context))))))"
| "serializeItems n h [] context = (Returns [], context)"
| "serializeItems n h (item # items) context =
    (case serializeValue n h item context of
      (Returns t, context') \<Rightarrow> wrap ((#) t) (serializeItems n h items context')
    | (Throws e, context') \<Rightarrow> (Throws e, context')
    | (Stuck, context') \<Rightarrow> (Stuck, context'))"
| "serializeEntries n h [] context = (Returns [], context)"
| "serializeEntries n h ((k, v) # entries) context =
    (case serializeValue n h k context of
      (Returns k', context') \<Rightarrow>
        (case serializeValue n h v context' of
          (Returns v', context'') \<Rightarrow>
            wrap ((#) (TArr [k', v'])) (serializeEntries n h entries context'')
        | (Throws e, context'') \<Rightarrow> (Throws e, context'')
        | (Stuck, context'') \<Rightarrow> (Stuck, context''))
    | (Throws e, context') \<Rightarrow> (Throws e, context')
    | (Stuck, context') \<Rightarrow> (Stuck, context'))"
| "serializeProps n h v [] serialized context = (Returns serialized, context)"
| "serializeProps n h v (k # keys) serialized context =
    (if hasOwnProperty v k then
      (case read v k of
        Inl e \<Rightarrow> serializeProps n h v keys serialized context
      | Inr x \<Rightarrow>
          (case serializeValue n h x context of
            (Returns serializedValue, context') \<Rightarrow>
              serializeProps n h v keys
                (if serializedValue \<noteq> Raw VUndefined then set_prop serialized k serializedValue
                 else serialized)
                context'
          | (Throws e, context') \<Rightarrow> serializeProps n h v keys serialized context'
          | (Stuck, context') \<Rightarrow> (Stuck, context')))
     else serializeProps n h v keys serialized context)"

  by pat_completeness auto

termination
  by (relation "inv_image (less_than <*lex*> less_than <*lex*> less_than) (\<lambda>x. case x of
      Inl (Inl (n, h, v, c)) \<Rightarrow> (n, 0::nat, 0::nat)
    | Inl (Inr (n, h, v, c)) \<Rightarrow> (n, 2, 0)
    | Inr (Inl (n, h, xs, c)) \<Rightarrow> (n, 1, length xs)
    | Inr (Inr (Inl (n, h, es, c))) \<Rightarrow> (n, 1, length es)
    | Inr (Inr (Inr (n, h, v, ks, acc, c))) \<Rightarrow> (n, 1, length ks))") auto

text \<open>
  \<open>serialize\<close> gives the walk the budget \<open>Suc (length h)\<close>: a chain of nested calls
  enters a new object at each level but the last, and no object is entered twice.
\<close>

definition serialize :: "heap \<Rightarrow> jsval \<Rightarrow> raw_text outcome" where
  "serialize h data =
    (let context = \<lparr>seen = Map.empty, refs = [], refCount = 0\<rparr> in
     case serializeValue (Suc (length h)) h data context of
       (Returns serialized, context') \<Rightarrow>
         (case fst (JSON_stringify None h
               (TObj [(''version'', Raw (VNum 1)), (''data'', serialized),
                      (''refs'', TArr (refs context'))]) ()) of
           Returns (Some t) \<Rightarrow> Returns t
         | Returns None \<Rightarrow> Stuck
         | Throws e \<Rightarrow> Throws e
         | Stuck \<Rightarrow> Stuck)
     | (Throws e, context') \<Rightarrow> Throws e
     | (Stuck, context') \<Rightarrow> Stuck)"

subsection \<open>The flat codec\<close>

text \<open>
  The replacer function of \<^verbatim>\<open>SimpleSerializer.serialize\<close>, with its set \<^verbatim>\<open>seen\<close> as
  state. A fresh array or object that an earlier call of the replacer returned is an object
  as well and is added to the set, but it has a new identity and is never met again, so
  the model leaves the set as it is. The budget of \<open>SimpleSerializer_serialize\<close> is the
  nesting depth available to \<^verbatim>\<open>JSON.stringify\<close>.
\<close>

definition replacer :: "addr set replacer" where
  "replacer h v seenSet =
    (case v of
      Raw (VRef a) \<Rightarrow>
        if a \<in> seenSet then (Returns (Raw (VStr ''[Circular]'')), seenSet)
        else if \<not> a < length h then (Stuck, insert a seenSet)
        else
          (case internal (h ! a) of
            MapOf entries \<Rightarrow>
              (case lookup_method (h ! a) ''entries'' of
                Throws e \<Rightarrow> (Throws e, insert a seenSet)
              | Stuck \<Rightarrow> (Stuck, insert a seenSet)
              | Returns u \<Rightarrow>
                  (Returns (TObj [(''_type'', Raw (VStr ''Map'')),
                     (''entries'', TArr (map (\<lambda>(k, x). TArr [Raw k, Raw x]) entries))]),
                   insert a seenSet))
          | SetOf vs \<Rightarrow>
              (Returns (TObj [(''_type'', Raw (VStr ''Set'')),
                 (''values'', TArr (map Raw vs))]), insert a seenSet)
          | DateOf d \<Rightarrow>
              (case lookup_method (h ! a) ''toISOString'' of
                Throws e \<Rightarrow> (Throws e, insert a seenSet)
              | Stuck \<Rightarrow> (Stuck, insert a seenSet)
              | Returns u \<Rightarrow>
                  (case d of
                    Some isoString \<Rightarrow>
                      (Returns (TObj [(''_type'', Raw (VStr ''Date'')),
                         (''value'', Raw (VStr isoString))]), insert a seenSet)
                  | None \<Rightarrow> (Throws (RangeError ''Invalid time value''), insert a seenSet)))
          | _ \<Rightarrow> (Returns v, insert a seenSet))
    | _ \<Rightarrow> (Returns v, seenSet))"

definition SimpleSerializer_serialize :: "nat \<Rightarrow> heap \<Rightarrow> jsval \<Rightarrow> raw_text option outcome" where
  "SimpleSerializer_serialize fuel h data =
     map_outcome (map_option Text) (fst (SerializeJSONProperty fuel (Some replacer) h [] (Raw data) {}))"

section \<open>Notions used to state the properties\<close>

subsection \<open>The identity table\<close>

text \<open>
  \<open>mark a c\<close> is the context after the two statements
  \<^verbatim>\<open>const refId = context.refCount++; context.seen.set(value, refId)\<close> on the object at
  address \<open>a\<close>. In a context that is \<open>ids_ok\<close>, every identity handed out is below the
  counter and no two objects have the same identity. \<open>extends c c'\<close>: every identity of
  \<open>c\<close> is kept in \<open>c'\<close>, the counter has not gone down, and the reference list is
  untouched. \<open>unseen h c\<close> counts the objects of the heap that have no identity yet.
\<close>

definition mark :: "addr \<Rightarrow> SerializationContext \<Rightarrow> SerializationContext" where
  "mark a c = c\<lparr>refCount := refCount c + 1, seen := (seen c)(a \<mapsto> refCount c)\<rparr>"

definition ids_ok :: "SerializationContext \<Rightarrow> bool" where
  "ids_ok c = ((\<forall>a i. seen c a = Some i \<longrightarrow> i < refCount c)
     \<and> (\<forall>a b i. seen c a = Some i \<and> seen c b = Some i \<longrightarrow> a = b))"

definition extends :: "SerializationContext \<Rightarrow> SerializationContext \<Rightarrow> bool" where
  "extends c c' = ((\<forall>a i. seen c a = Some i \<longrightarrow> seen c' a = Some i)
     \<and> refCount c \<le> refCount c' \<and> refs c' = refs c \<and> (ids_ok c \<longrightarrow> ids_ok c'))"

definition unseen :: "heap \<Rightarrow> SerializationContext \<Rightarrow> nat" where
  "unseen h c = card {a. a < length h \<and> seen c a = None}"

subsection \<open>Objects that reach the shape tests, closed heaps, known calls\<close>

text \<open>
  The tests \<^verbatim>\<open>instanceof Date\<close>, \<^verbatim>\<open>RegExp\<close>, \<^verbatim>\<open>Map\<close> and \<^verbatim>\<open>Set\<close> come first; every
  other object is \<open>shape_tested\<close>. A heap is closed when every reference stored in one
  of its objects points into it. A \<open>scalar\<close> is \<^verbatim>\<open>undefined\<close>, \<^verbatim>\<open>null\<close>, a boolean, a
  number or a string. The calls of an object are known when no function stored in one of
  its properties hides a method that the encoder calls on it (\<^verbatim>\<open>toISOString\<close> on a
  timestamp, \<^verbatim>\<open>entries\<close> on a map, \<^verbatim>\<open>map\<close> on an array, \<^verbatim>\<open>getItemAt\<close> on a range
  collection) and no property of a range collection hides its \<^verbatim>\<open>count\<close> with another
  value: the calls for which the model has an answer.
\<close>

definition shape_tested :: "object \<Rightarrow> bool" where
  "shape_tested v =
    (case internal v of
      Ordinary \<Rightarrow> True | ArrayOf xs \<Rightarrow> True | TextRangeCollectionOf xs \<Rightarrow> True | _ \<Rightarrow> False)"

fun in_heap :: "heap \<Rightarrow> jsval \<Rightarrow> bool" where
  "in_heap h (VRef a) = (a < length h)"
| "in_heap h v = True"

fun slot_values :: "slot \<Rightarrow> jsval list" where
  "slot_values (Data x) = [x]"
| "slot_values (Accessor_throws e) = []"

fun internal_values :: "internal \<Rightarrow> jsval list" where
  "internal_values (ArrayOf xs) = xs"
| "internal_values (MapOf es) = concat (map (\<lambda>(k, x). [k, x]) es)"
| "internal_values (SetOf xs) = xs"
| "internal_values (TextRangeCollectionOf xs) = xs"
| "internal_values _ = []"

definition values_of :: "object \<Rightarrow> jsval list" where
  "values_of v = internal_values (internal v) @ concat (map (\<lambda>p. slot_values (slot p)) (props v))"

definition heap_closed :: "heap \<Rightarrow> bool" where
  "heap_closed h = list_all (\<lambda>v. list_all (in_heap h) (values_of v)) h"


definition calls_known :: "object \<Rightarrow> bool" where
  "calls_known v =
    (case internal v of
      DateOf d \<Rightarrow> lookup_method v ''toISOString'' \<noteq> Stuck
    | MapOf es \<Rightarrow> lookup_method v ''entries'' \<noteq> Stuck
    | ArrayOf xs \<Rightarrow> lookup_method v ''map'' \<noteq> Stuck
    | TextRangeCollectionOf xs \<Rightarrow> collection_calls v xs \<noteq> Stuck
    | _ \<Rightarrow> True)"

subsection \<open>What \<^verbatim>\<open>JSON.stringify\<close> makes of a tree without references\<close>

text \<open>
  A tree is \<open>pure\<close> when none of its leaves is a reference to a heap object. On such a
  tree \<^verbatim>\<open>JSON.stringify\<close> computes \<open>json_of\<close>, and \<open>document t\<close> is the document that
  \<open>serialize\<close> returns when the walk returned \<open>t\<close>.
\<close>

fun pure :: "tree \<Rightarrow> bool" where
  "pure (Raw v) = (case v of VRef a \<Rightarrow> False | _ \<Rightarrow> True)"
| "pure (TArr ts) = list_all pure ts"
| "pure (TObj kvs) = list_all (\<lambda>(k, t). pure t) kvs"

fun json_of :: "tree \<Rightarrow> json option" where
  "json_of (Raw VNull) = Some JNull"
| "json_of (Raw (VBool b)) = Some (JBool b)"
| "json_of (Raw (VNum x)) = Some (JNum x)"
| "json_of (Raw (VStr s)) = Some (JStr s)"
| "json_of (Raw v) = None"
| "json_of (TArr ts) = Some (JArr (map (\<lambda>t. case json_of t of None \<Rightarrow> JNull | Some j \<Rightarrow> j) ts))"
| "json_of (TObj kvs) =
     Some (JObj (concat (map (\<lambda>(k, t). case json_of t of None \<Rightarrow> [] | Some j \<Rightarrow> [(k, j)]) kvs)))"

definition document :: "tree \<Rightarrow> json" where
  "document t = JObj ((''version'', JNum 1) #
     (case json_of t of None \<Rightarrow> [] | Some j \<Rightarrow> [(''data'', j)]) @ [(''refs'', JArr [])])"

subsection \<open>Structural equality of a heap value and a tree\<close>

text \<open>
  \<open>represents h v d\<close>: the value \<open>v\<close> in the heap \<open>h\<close> has the kind, the scalar contents
  and the order of elements, entries and keys of the tree \<open>d\<close>. A record is an ordinary
  object all of whose properties are own, enumerable data properties; a timestamp, pattern,
  map, set, range collection or sequence has no property besides its contents.
  \<open>nodes h v d\<close> lists the addresses met when \<open>v\<close> is walked along \<open>d\<close>; the value is
  tree shaped when no address is listed twice, that is when no object is reached along
  two paths.
\<close>

fun elements :: "internal \<Rightarrow> jsval list" where
  "elements (ArrayOf xs) = xs"
| "elements (SetOf xs) = xs"
| "elements (TextRangeCollectionOf xs) = xs"
| "elements _ = []"

fun entries_of :: "internal \<Rightarrow> (jsval \<times> jsval) list" where
  "entries_of (MapOf es) = es"
| "entries_of _ = []"

definition kind_matches :: "internal \<Rightarrow> dval \<Rightarrow> bool" where
  "kind_matches i d =
    (case d of
      DDate j \<Rightarrow> (case i of DateOf (Some s) \<Rightarrow> j = JStr s | _ \<Rightarrow> False)
    | DRegExp so fo \<Rightarrow>
        (case i of RegExpOf s f \<Rightarrow> so = Some (JStr s) \<and> fo = Some (JStr f) | _ \<Rightarrow> False)
    | DMap ds \<Rightarrow> (case i of MapOf es \<Rightarrow> True | _ \<Rightarrow> False)
    | DSet ds \<Rightarrow> (case i of SetOf xs \<Rightarrow> True | _ \<Rightarrow> False)
    | DTextRangeCollection d' \<Rightarrow>
        (case (i, d') of (TextRangeCollectionOf xs, DArray ds) \<Rightarrow> True | _ \<Rightarrow> False)
    | DArray ds \<Rightarrow> (case i of ArrayOf xs \<Rightarrow> True | _ \<Rightarrow> False)
    | DObject kvs \<Rightarrow> (case i of Ordinary \<Rightarrow> True | _ \<Rightarrow> False)
    | _ \<Rightarrow> False)"

definition scalar_matches :: "jsval \<Rightarrow> dval \<Rightarrow> bool" where
  "scalar_matches v d =
    (case d of
      DUndefined \<Rightarrow> v = VUndefined
    | DNull \<Rightarrow> v = VNull
    | DBool b \<Rightarrow> v = VBool b
    | DNum n \<Rightarrow> v = VNum n
    | DStr s \<Rightarrow> v = VStr s
    | _ \<Rightarrow> False)"

function (sequential) represents :: "heap \<Rightarrow> jsval \<Rightarrow> dval \<Rightarrow> bool"
and represents_object :: "heap \<Rightarrow> object \<Rightarrow> dval \<Rightarrow> bool"
and represents_items :: "heap \<Rightarrow> jsval list \<Rightarrow> dval list \<Rightarrow> bool"
and represents_entries :: "heap \<Rightarrow> (jsval \<times> jsval) list \<Rightarrow> (dval \<times> dval) list \<Rightarrow> bool"
and represents_props :: "heap \<Rightarrow> property list \<Rightarrow> (string \<times> dval) list \<Rightarrow> bool"
where
  "represents h v d =
    (case v of
      VRef a \<Rightarrow> a < length h \<and> kind_matches (internal (h ! a)) d \<and> represents_object h (h ! a) d
    | _ \<Rightarrow> scalar_matches v d)"
| "represents_object h obj (DMap ds) =
    (props obj = [] \<and> represents_entries h (entries_of (internal obj)) ds)"
| "represents_object h obj (DSet ds) =
    (props obj = [] \<and> represents_items h (elements (internal obj)) ds)"
| "represents_object h obj (DTextRangeCollection (DArray ds)) =
    (props obj = [] \<and> represents_items h (elements (internal obj)) ds)"
| "represents_object h obj (DArray ds) =
    (props obj = [] \<and> represents_items h (elements (internal obj)) ds)"
| "represents_object h obj (DObject kvs) = represents_props h (props obj) kvs"
| "represents_object h obj (DDate j) = (props obj = [])"
| "represents_object h obj (DRegExp so fo) = (props obj = [])"
| "represents_object h obj _ = False"
| "represents_items h [] [] = True"
| "represents_items h (x # xs) (d # ds) = (represents h x d \<and> represents_items h xs ds)"
| "represents_items h _ _ = False"
| "represents_entries h [] [] = True"
| "represents_entries h ((k, x) # es) ((dk, dx) # ds) =
    (represents h k dk \<and> represents h x dx \<and> represents_entries h es ds)"
| "represents_entries h _ _ = False"
| "represents_props h [] [] = True"
| "represents_props h (p # ps) ((k, d) # kvs) =
    (name p = k \<and> own p \<and> enumerable p
     \<and> (case slot p of Data x \<Rightarrow> represents h x d | Accessor_throws e \<Rightarrow> False)
     \<and> represents_props h ps kvs)"
| "represents_props h _ _ = False"
  by pat_completeness auto

termination
  by (relation "inv_image (less_than <*lex*> less_than) (\<lambda>x. case x of
      Inl (Inl (h, v, d)) \<Rightarrow> (size d, 1::nat)
    | Inl (Inr (h, obj, d)) \<Rightarrow> (size d, 0)
    | Inr (Inl (h, xs, ds)) \<Rightarrow> (size_list size ds, 0)
    | Inr (Inr (Inl (h, es, ds))) \<Rightarrow> (size_list (size_prod size size) ds, 0)
    | Inr (Inr (Inr (h, ps, kvs))) \<Rightarrow> (size_list (size_prod (\<lambda>_. 0) size) kvs, 0))") auto

function (sequential) nodes :: "heap \<Rightarrow> jsval \<Rightarrow> dval \<Rightarrow> addr list"
and nodes_object :: "heap \<Rightarrow> object \<Rightarrow> dval \<Rightarrow> addr list"
and nodes_items :: "heap \<Rightarrow> jsval list \<Rightarrow> dval list \<Rightarrow> addr list"
and nodes_entries :: "heap \<Rightarrow> (jsval \<times> jsval) list \<Rightarrow> (dval \<times> dval) list \<Rightarrow> addr list"
and nodes_props :: "heap \<Rightarrow> property list \<Rightarrow> (string \<times> dval) list \<Rightarrow> addr list"
where
  "nodes h v d = (case v of VRef a \<Rightarrow> a # nodes_object h (h ! a) d | _ \<Rightarrow> [])"
| "nodes_object h obj (DMap ds) = nodes_entries h (entries_of (internal obj)) ds"
| "nodes_object h obj (DSet ds) = nodes_items h (elements (internal obj)) ds"
| "nodes_object h obj (DTextRangeCollection (DArray ds)) = nodes_items h (elements (internal obj)) ds"
| "nodes_object h obj (DArray ds) = nodes_items h (elements (internal obj)) ds"
| "nodes_object h obj (DObject kvs) = nodes_props h (props obj) kvs"
| "nodes_object h obj _ = []"
| "nodes_items h (x # xs) (d # ds) = nodes h x d @ nodes_items h xs ds"
| "nodes_items h _ _ = []"
| "nodes_entries h ((k, x) # es) ((dk, dx) # ds) =
     nodes h k dk @ nodes h x dx @ nodes_entries h es ds"
| "nodes_entries h _ _ = []"
| "nodes_props h (p # ps) ((k, d) # kvs) =
     (case slot p of Data x \<Rightarrow> nodes h x d | Accessor_throws e \<Rightarrow> []) @ nodes_props h ps kvs"
| "nodes_props h _ _ = []"
  by pat_completeness auto

termination
  by (relation "inv_image (less_than <*lex*> less_than) (\<lambda>x. case x of
      Inl (Inl (h, v, d)) \<Rightarrow> (size d, 1::nat)
    | Inl (Inr (h, obj, d)) \<Rightarrow> (size d, 0)
    | Inr (Inl (h, xs, ds)) \<Rightarrow> (size_list size ds, 0)
    | Inr (Inr (Inl (h, es, ds))) \<Rightarrow> (size_list (size_prod size size) ds, 0)
    | Inr (Inr (Inr (h, ps, kvs))) \<Rightarrow> (size_list (size_prod (\<lambda>_. 0) size) kvs, 0))") auto

subsection \<open>The values that survive a round trip\<close>

text \<open>
  \<open>TYPE_MARKERS\<close> are the reserved keys of the program's constant of that name.
  \<open>supported H d\<close> describes the trees the round trip preserves: null, booleans,
  numbers and strings; timestamps; patterns the host accepts; maps and sets whose scalar
  members are pairwise different; range collections; sequences; a text range with the keys
  \<^verbatim>\<open>start\<close> and \<^verbatim>\<open>length\<close>, in this order and nothing else; a diagnostic with the keys
  \<^verbatim>\<open>category\<close>, \<^verbatim>\<open>message\<close>, \<^verbatim>\<open>range\<close>, in this order and nothing else, the first two
  scalar; and any other record whose keys are pairwise different, are not reserved and are
  not \<^verbatim>\<open>__proto__\<close>, and which has neither numeric \<^verbatim>\<open>start\<close> and \<^verbatim>\<open>length\<close> nor the
  three keys of a diagnostic. \<^verbatim>\<open>undefined\<close> and functions are not supported.
  \<open>enc d\<close> is the tree the encoder builds for such a value and \<open>jenc d\<close> its JSON value.
\<close>

definition TYPE_MARKERS :: "string list" where
  "TYPE_MARKERS = [''__Circular__'', ''__Date__'', ''__RegExp__'', ''__Map__'', ''__Set__'',
    ''__TextRange__'', ''__TextRangeCollection__'', ''__ParseNode__'', ''__Diagnostic__'']"

fun is_scalar :: "dval \<Rightarrow> bool" where
  "is_scalar DNull = True"
| "is_scalar (DBool b) = True"
| "is_scalar (DNum n) = True"
| "is_scalar (DStr s) = True"
| "is_scalar _ = False"

fun is_number :: "dval option \<Rightarrow> bool" where
  "is_number (Some (DNum n)) = True"
| "is_number _ = False"

definition text_range_shaped :: "(string \<times> dval) list \<Rightarrow> bool" where
  "text_range_shaped kvs = (is_number (map_of kvs ''start'') \<and> is_number (map_of kvs ''length''))"

definition diagnostic_shaped :: "(string \<times> dval) list \<Rightarrow> bool" where
  "diagnostic_shaped kvs =
    (''category'' \<in> set (map fst kvs) \<and> ''message'' \<in> set (map fst kvs) \<and> ''range'' \<in> set (map fst kvs))"

function (sequential) supported :: "host \<Rightarrow> dval \<Rightarrow> bool"
and supported_items :: "host \<Rightarrow> dval list \<Rightarrow> bool"
and supported_entries :: "host \<Rightarrow> (dval \<times> dval) list \<Rightarrow> bool"
and supported_props :: "host \<Rightarrow> (string \<times> dval) list \<Rightarrow> bool"
where
  "supported H DUndefined = False"
| "supported H DNull = True"
| "supported H (DBool b) = True"
| "supported H (DNum n) = True"
| "supported H (DStr s) = True"
| "supported H (DDate j) = (case j of JStr s \<Rightarrow> True | _ \<Rightarrow> False)"
| "supported H (DRegExp so fo) =
    (case (so, fo) of (Some (JStr s), Some (JStr f)) \<Rightarrow> H so fo | _ \<Rightarrow> False)"
| "supported H (DMap ds) = (supported_entries H ds \<and> Map_new ds = ds)"
| "supported H (DSet ds) = (supported_items H ds \<and> Set_new ds = ds)"
| "supported H (DTextRangeCollection d) =
    (case d of DArray ds \<Rightarrow> supported_items H ds | _ \<Rightarrow> False)"
| "supported H (DArray ds) = supported_items H ds"
| "supported H (DObject kvs) =
    (supported_props H kvs \<and>
     (if text_range_shaped kvs then map fst kvs = [''start'', ''length'']
      else if diagnostic_shaped kvs then
        map fst kvs = [''category'', ''message'', ''range'']
        \<and> is_scalar (snd (kvs ! 0)) \<and> is_scalar (snd (kvs ! 1))
      else distinct (map fst kvs) \<and> list_all (\<lambda>k. k \<notin> set TYPE_MARKERS \<and> k \<noteq> ''__proto__'') (map fst kvs)))"
| "supported_items H [] = True"
| "supported_items H (d # ds) = (supported H d \<and> supported_items H ds)"
| "supported_entries H [] = True"
| "supported_entries H ((dk, dx) # ds) = (supported H dk \<and> supported H dx \<and> supported_entries H ds)"
| "supported_props H [] = True"
| "supported_props H ((k, d) # kvs) = (supported H d \<and> supported_props H kvs)"
  by pat_completeness auto

termination
  by (relation "measure (\<lambda>x. case x of
      Inl (Inl (H, d)) \<Rightarrow> size d
    | Inl (Inr (H, ds)) \<Rightarrow> size_list size ds
    | Inr (Inl (H, ds)) \<Rightarrow> size_list (size_prod size size) ds
    | Inr (Inr (H, kvs)) \<Rightarrow> size_list (size_prod (\<lambda>_. 0) size) kvs)") auto

fun enc :: "dval \<Rightarrow> tree" where
  "enc DUndefined = Raw VUndefined"
| "enc DNull = Raw VNull"
| "enc (DBool b) = Raw (VBool b)"
| "enc (DNum n) = Raw (VNum n)"
| "enc (DStr s) = Raw (VStr s)"
| "enc (DDate j) = TObj [(''__Date__'', Raw (case j of JStr s \<Rightarrow> VStr s | _ \<Rightarrow> VUndefined))]"
| "enc (DRegExp so fo) = TObj [(''__RegExp__'',
     TObj [(''source'', Raw (case so of Some (JStr s) \<Rightarrow> VStr s | _ \<Rightarrow> VUndefined)),
           (''flags'', Raw (case fo of Some (JStr f) \<Rightarrow> VStr f | _ \<Rightarrow> VUndefined))])]"
| "enc (DMap ds) = TObj [(''__Map__'', TArr (map (\<lambda>(k, x). TArr [enc k, enc x]) ds))]"
| "enc (DSet ds) = TObj [(''__Set__'', TArr (map enc ds))]"
| "enc (DTextRangeCollection d) = TObj [(''__TextRangeCollection__'',
     TObj [(''items'', enc d),
           (''count'', Raw (VNum (int (case d of DArray ds \<Rightarrow> length ds | _ \<Rightarrow> 0))))])]"
| "enc (DArray ds) = TArr (map enc ds)"
| "enc (DObject kvs) =
    (if text_range_shaped kvs then TObj [(''__TextRange__'', TObj (map (\<lambda>(k, d). (k, enc d)) kvs))]
     else if diagnostic_shaped kvs then
       TObj [(''__Diagnostic__'', TObj (map (\<lambda>(k, d). (k, enc d)) kvs))]
     else TObj (map (\<lambda>(k, d). (k, enc d)) kvs))"

fun jenc :: "dval \<Rightarrow> json" where
  "jenc DUndefined = JNull"
| "jenc DNull = JNull"
| "jenc (DBool b) = JBool b"
| "jenc (DNum n) = JNum n"
| "jenc (DStr s) = JStr s"
| "jenc (DDate j) = JObj [(''__Date__'', j)]"
| "jenc (DRegExp so fo) = JObj [(''__RegExp__'',
     JObj [(''source'', case so of Some j \<Rightarrow> j | None \<Rightarrow> JNull),
           (''flags'', case fo of Some j \<Rightarrow> j | None \<Rightarrow> JNull)])]"
| "jenc (DMap ds) = JObj [(''__Map__'', JArr (map (\<lambda>(k, x). JArr [jenc k, jenc x]) ds))]"
| "jenc (DSet ds) = JObj [(''__Set__'', JArr (map jenc ds))]"
| "jenc (DTextRangeCollection d) = JObj [(''__TextRangeCollection__'',
     JObj [(''items'', jenc d),
           (''count'', JNum (int (case d of DArray ds \<Rightarrow> length ds | _ \<Rightarrow> 0)))])]"
| "jenc (DArray ds) = JArr (map jenc ds)"
| "jenc (DObject kvs) =
    (if text_range_shaped kvs then JObj [(''__TextRange__'', JObj (map (\<lambda>(k, d). (k, jenc d)) kvs))]
     else if diagnostic_shaped kvs then
       JObj [(''__Diagnostic__'', JObj (map (\<lambda>(k, d). (k, jenc d)) kvs))]
     else JObj (map (\<lambda>(k, d). (k, jenc d)) kvs))"


definition visits :: "'a outcome \<times> SerializationContext \<Rightarrow> 'a \<Rightarrow> SerializationContext \<Rightarrow>
    addr list \<Rightarrow> heap \<Rightarrow> bool" where
  "visits r t c ns h =
    (fst r = Returns t \<and> dom (seen (snd r)) = dom (seen c) \<union> set ns \<and> (\<forall>a \<in> set ns. a < length h))"

subsection \<open>The decoder as the spec describes it\<close>

text \<open>
  Modelled from the spec: C3 says that every node tagged \<^verbatim>\<open>__Circular__\<close> evaluates to
  null. \<open>decode_circular_as_null\<close> is the decoder of these words: it has no map of
  resolved references, and a node that has the key \<^verbatim>\<open>__Circular__\<close> is null wherever it
  stands. Its other cases are those of \<open>deserializeValue\<close>, with which C3 compares it.
\<close>

function (sequential) decode_circular_as_null :: "host \<Rightarrow> json option \<Rightarrow> error + dval"
and decode_circular_as_null_items :: "host \<Rightarrow> json list \<Rightarrow> error + dval list"
and decode_circular_as_null_entries :: "host \<Rightarrow> json list \<Rightarrow> error + (dval \<times> dval) list"
and decode_circular_as_null_props ::
  "host \<Rightarrow> (string \<times> json) list \<Rightarrow> (string \<times> dval) list \<Rightarrow> error + (string \<times> dval) list"
where
  "decode_circular_as_null H None = Inr DUndefined"
| "decode_circular_as_null H (Some JNull) = Inr DNull"
| "decode_circular_as_null H (Some (JBool b)) = Inr (DBool b)"
| "decode_circular_as_null H (Some (JNum n)) = Inr (DNum n)"
| "decode_circular_as_null H (Some (JStr s)) = Inr (DStr s)"
| "decode_circular_as_null H (Some value) =
    (case get value ''__Circular__'' of
      Some refId \<Rightarrow> Inr DNull
    | None \<Rightarrow>
    (case get value ''__Date__'' of
      Some d \<Rightarrow> Inr (DDate d)
    | None \<Rightarrow>
    (case get value ''__RegExp__'' of
      Some r \<Rightarrow>
        if r = JNull then Inl (TypeError ''Cannot destructure null'')
        else if H (get r ''source'') (get r ''flags'')
          then Inr (DRegExp (get r ''source'') (get r ''flags''))
          else Inl (SyntaxError ''Invalid regular expression'')
    | None \<Rightarrow>
    (case get value ''__Map__'' of
      Some m \<Rightarrow>
        (case m of
          JArr es \<Rightarrow>
            (case decode_circular_as_null_entries H es of
              Inl e \<Rightarrow> Inl e
            | Inr entries \<Rightarrow> Inr (DMap (Map_new entries)))
        | _ \<Rightarrow> Inl (TypeError ''map is not a function''))
    | None \<Rightarrow>
    (case get value ''__Set__'' of
      Some s \<Rightarrow>
        (case s of
          JArr xs \<Rightarrow>
            (case decode_circular_as_null_items H xs of
              Inl e \<Rightarrow> Inl e
            | Inr values \<Rightarrow> Inr (DSet (Set_new values)))
        | _ \<Rightarrow> Inl (TypeError ''map is not a function''))
    | None \<Rightarrow>
    (case get value ''__TextRange__'' of
      Some r \<Rightarrow>
        if r = JNull then Inl (TypeError ''Cannot destructure null'')
        else Inr (DObject [(''start'', of_json_opt (get r ''start'')),
                           (''length'', of_json_opt (get r ''length''))])
    | None \<Rightarrow>
    (case get value ''__TextRangeCollection__'' of
      Some c \<Rightarrow>
        if c = JNull then Inl (TypeError ''Cannot read properties of null'')
        else
          (case decode_circular_as_null H (get c ''items'') of
            Inl e \<Rightarrow> Inl e
          | Inr items \<Rightarrow> Inr (DTextRangeCollection items))
    | None \<Rightarrow>
    (case get value ''__ParseNode__'' of
      Some p \<Rightarrow>
        if p = JNull then Inl (TypeError ''Cannot destructure null'')
        else Inr (DObject [(''nodeType'', of_json_opt (get p ''nodeType'')),
                           (''id'', of_json_opt (get p ''id'')),
                           (''start'', of_json_opt (get p ''start'')),
                           (''length'', of_json_opt (get p ''length''))])
    | None \<Rightarrow>
    (case get value ''__Diagnostic__'' of
      Some d \<Rightarrow>
        if d = JNull then Inl (TypeError ''Cannot destructure null'')
        else
          (case decode_circular_as_null H (get d ''range'') of
            Inl e \<Rightarrow> Inl e
          | Inr range' \<Rightarrow>
              Inr (DObject [(''category'', of_json_opt (get d ''category'')),
                            (''message'', of_json_opt (get d ''message'')),
                            (''range'', range')]))
    | None \<Rightarrow>
    (case value of
      JArr xs \<Rightarrow>
        (case decode_circular_as_null_items H xs of
          Inl e \<Rightarrow> Inl e
        | Inr items \<Rightarrow> Inr (DArray items))
    | JObj kvs \<Rightarrow>
        (case decode_circular_as_null_props H kvs [] of
          Inl e \<Rightarrow> Inl e
        | Inr deserialized \<Rightarrow> Inr (DObject deserialized))
    | _ \<Rightarrow> Inr DUndefined))))))))))"
| "decode_circular_as_null_items H [] = Inr []"
| "decode_circular_as_null_items H (item # items) =
    (case decode_circular_as_null H (Some item) of
      Inl e \<Rightarrow> Inl e
    | Inr v \<Rightarrow>
        (case decode_circular_as_null_items H items of
          Inl e \<Rightarrow> Inl e
        | Inr vs \<Rightarrow> Inr (v # vs)))"
| "decode_circular_as_null_entries H [] = Inr []"
| "decode_circular_as_null_entries H (entry # entries) =
    (case destructure_pair entry of
      Inl e \<Rightarrow> Inl e
    | Inr (k, v) \<Rightarrow>
        (case decode_circular_as_null H k of
          Inl e \<Rightarrow> Inl e
        | Inr k' \<Rightarrow>
            (case decode_circular_as_null H v of
              Inl e \<Rightarrow> Inl e
            | Inr v' \<Rightarrow>
                (case decode_circular_as_null_entries H entries of
                  Inl e \<Rightarrow> Inl e
                | Inr rest \<Rightarrow> Inr ((k', v') # rest)))))"
| "decode_circular_as_null_props H [] deserialized = Inr deserialized"
| "decode_circular_as_null_props H ((key, v) # kvs) deserialized =
    (case decode_circular_as_null H (Some v) of
      Inl e \<Rightarrow> Inl e
    | Inr v' \<Rightarrow> decode_circular_as_null_props H kvs (set_prop deserialized key v'))"
  by pat_completeness auto

termination
  apply (relation "measure (\<lambda>x. case x of
      Inl (Inl (H, v)) \<Rightarrow> osize v
    | Inl (Inr (H, xs)) \<Rightarrow> Suc (size_list size xs)
    | Inr (Inl (H, es)) \<Rightarrow> Suc (size_list size es)
    | Inr (Inr (H, kvs, acc)) \<Rightarrow> Suc (size_list (size_prod (\<lambda>_. 0) size) kvs))")
  apply (auto dest!: size_map_of size_get osize_destructure split: if_splits)
  subgoal for v x2 using osize_get [of x2 "''range''"] by linarith
  subgoal for v x2 using osize_get [of x2 "''items''"] by linarith
  done

section \<open>Concrete inputs\<close>

definition data_field :: "string \<Rightarrow> jsval \<Rightarrow> property" where
  "data_field k x = \<lparr>name = k, own = True, enumerable = True, slot = Data x\<rparr>"

definition record_of :: "property list \<Rightarrow> object" where
  "record_of ps = \<lparr>internal = Ordinary, props = ps\<rparr>"

definition bare :: "internal \<Rightarrow> object" where
  "bare i = \<lparr>internal = i, props = []\<rparr>"

definition any_regexp :: host where
  "any_regexp source flags = True"

text \<open>The self-referential record \<^verbatim>\<open>let a = {}; a.self = a\<close>.\<close>

definition a_self :: heap where
  "a_self = [\<lparr>internal = Ordinary,
     props = [\<lparr>name = ''self'', own = True, enumerable = True, slot = Data (VRef 0)\<rparr>]\<rparr>]"

text \<open>A parse node: a record with \<^verbatim>\<open>nodeType\<close>, \<^verbatim>\<open>id\<close>, \<^verbatim>\<open>start\<close> and \<^verbatim>\<open>length\<close>.\<close>

definition parse_node :: heap where
  "parse_node = [\<lparr>internal = Ordinary,
     props = [\<lparr>name = ''nodeType'', own = True, enumerable = True, slot = Data (VNum 38)\<rparr>,
              \<lparr>name = ''id'', own = True, enumerable = True, slot = Data (VNum 7)\<rparr>,
              \<lparr>name = ''start'', own = True, enumerable = True, slot = Data (VNum 0)\<rparr>,
              \<lparr>name = ''length'', own = True, enumerable = True, slot = Data (VNum 3)\<rparr>]\<rparr>]"

text \<open>A timestamp, and a record that holds it.\<close>

definition a_date :: heap where
  "a_date = [\<lparr>internal = DateOf (Some ''2024-01-01T00:00:00.000Z''), props = []\<rparr>,
             \<lparr>internal = Ordinary,
              props = [\<lparr>name = ''at'', own = True, enumerable = True, slot = Data (VRef 0)\<rparr>]\<rparr>]"

text \<open>A cache entry that uses every supported kind once.\<close>

definition cache_entry :: heap where
  "cache_entry =
    [bare (DateOf (Some ''2024-01-01T00:00:00.000Z'')),
     bare (SetOf [VNum 1, VNum 2]),
     record_of [data_field ''start'' (VNum 0), data_field ''length'' (VNum 4)],
     bare (ArrayOf [VNull, VBool True, VStr ''s'']),
     record_of [data_field ''x'' (VNum 1)],
     bare (MapOf [(VStr ''k'', VRef 4)]),
     bare (RegExpOf ''a+'' ''g''),
     bare (TextRangeCollectionOf [VRef 2]),
     record_of [data_field ''when'' (VRef 0), data_field ''tags'' (VRef 1), data_field ''items'' (VRef 3),
                data_field ''index'' (VRef 5), data_field ''pattern'' (VRef 6), data_field ''ranges'' (VRef 7)]]"

definition cache_entry_tree :: dval where
  "cache_entry_tree =
    DObject [(''when'', DDate (JStr ''2024-01-01T00:00:00.000Z'')),
             (''tags'', DSet [DNum 1, DNum 2]),
             (''items'', DArray [DNull, DBool True, DStr ''s'']),
             (''index'', DMap [(DStr ''k'', DObject [(''x'', DNum 1)])]),
             (''pattern'', DRegExp (Some (JStr ''a+'')) (Some (JStr ''g''))),
             (''ranges'', DTextRangeCollection (DArray
                [DObject [(''start'', DNum 0), (''length'', DNum 4)]]))]"

text \<open>\<^verbatim>\<open>let shared = {x: 1}; let v = {a: shared, b: shared}\<close>, the example of the spec.\<close>

definition shared_record :: heap where
  "shared_record =
    [record_of [data_field ''x'' (VNum 1)],
     record_of [data_field ''a'' (VRef 0), data_field ''b'' (VRef 0)]]"

definition shared_record_tree :: dval where
  "shared_record_tree =
    DObject [(''a'', DObject [(''x'', DNum 1)]), (''b'', DObject [(''x'', DNum 1)])]"

text \<open>A text range with one more field, a sequence that holds it twice, and a map that
  was given the properties \<^verbatim>\<open>start\<close> and \<^verbatim>\<open>length\<close>.\<close>

definition ranges :: heap where
  "ranges =
    [record_of [data_field ''start'' (VNum 0), data_field ''length'' (VNum 5), data_field ''text'' (VStr ''hello'')],
     bare (ArrayOf [VRef 0, VRef 0]),
     \<lparr>internal = MapOf [], props = [data_field ''start'' (VNum 1), data_field ''length'' (VNum 2)]\<rparr>]"





text \<open>A diagnostic with the private field \<^verbatim>\<open>_rule\<close>; its range is made of two positions.\<close>

definition diagnostic :: heap where
  "diagnostic =
    [record_of [data_field ''line'' (VNum 1), data_field ''character'' (VNum 2)],
     record_of [data_field ''line'' (VNum 1), data_field ''character'' (VNum 7)],
     record_of [data_field ''start'' (VRef 0), data_field ''end'' (VRef 1)],
     record_of [data_field ''category'' (VNum 0), data_field ''message'' (VStr ''Import cycle''),
                data_field ''range'' (VRef 2), data_field ''_rule'' (VStr ''reportImportCycles'')]]"

definition diagnostic_range :: dval where
  "diagnostic_range =
    DObject [(''start'', DObject [(''line'', DNum 1), (''character'', DNum 2)]),
             (''end'', DObject [(''line'', DNum 1), (''character'', DNum 7)])]"


section \<open>Lemmas\<close>

subsection \<open>The branches of the encoder, and the identity table\<close>

declare serializeObject.simps [simp del]

lemma snd_wrap [simp]: "snd (wrap f p) = snd p"
  by (cases p) simp

lemma fst_wrap [simp]: "fst (wrap f p) = map_outcome f (fst p)"
  by (cases p) simp

lemma isParseNode_after_isTextRange:
  "isTextRange v = Inr False \<Longrightarrow> isParseNode v = Inr False"
  by (auto simp: isTextRange_def isParseNode_def split: sum.splits if_splits)

lemma isParseNode_implies_isTextRange:
  "isParseNode v = Inr True \<Longrightarrow> isTextRange v = Inr True"
  by (auto simp: isTextRange_def isParseNode_def split: sum.splits if_splits)

lemma lookup_method_no_props [simp]: "props v = [] \<Longrightarrow> lookup_method v m = Returns ()"
  by (simp add: lookup_method_def find_prop_def)

lemma read_accessor_no_props [simp]: "props v = [] \<Longrightarrow> read_accessor v k x = Inr x"
  by (simp add: read_accessor_def find_prop_def)

lemma serializeObject_Date:
  "internal v = DateOf d \<Longrightarrow> serializeObject n h v c =
    (case lookup_method v ''toISOString'' of
       Throws e \<Rightarrow> Throws e
     | Stuck \<Rightarrow> Stuck
     | Returns u \<Rightarrow>
         (case d of Some isoString \<Rightarrow> Returns (TObj [(''__Date__'', Raw (VStr isoString))])
          | None \<Rightarrow> Throws (RangeError ''Invalid time value'')), c)"
  by (simp add: serializeObject.simps split: option.splits outcome.splits)

lemma serializeObject_RegExp:
  "internal v = RegExpOf s f \<Longrightarrow> serializeObject n h v c =
    (case read_accessor v ''source'' (VStr s) of
       Inl e \<Rightarrow> Throws e
     | Inr x \<Rightarrow>
         (case read_accessor v ''flags'' (VStr f) of
            Inl e \<Rightarrow> Throws e
          | Inr y \<Rightarrow> Returns (TObj [(''__RegExp__'', TObj [(''source'', Raw x), (''flags'', Raw y)])])), c)"
  by (simp add: serializeObject.simps split: sum.splits)

lemma serializeObject_Map:
  "internal v = MapOf es \<Longrightarrow> serializeObject n h v c =
    (case lookup_method v ''entries'' of
       Throws e \<Rightarrow> (Throws e, c)
     | Stuck \<Rightarrow> (Stuck, c)
     | Returns u \<Rightarrow> wrap (\<lambda>es. TObj [(''__Map__'', TArr es)]) (serializeEntries n h es c))"
  by (simp add: serializeObject.simps)

lemma serializeObject_Set:
  "internal v = SetOf xs \<Longrightarrow> serializeObject n h v c =
    wrap (\<lambda>ts. TObj [(''__Set__'', TArr ts)]) (serializeItems n h xs c)"
  by (simp add: serializeObject.simps)

lemma serializeObject_guard_throws:
  "shape_tested v \<Longrightarrow> isTextRange v = Inl e \<Longrightarrow> serializeObject n h v c = (Throws e, c)"
  by (simp add: serializeObject.simps shape_tested_def split: internal.splits)

lemma serializeObject_TextRange:
  "shape_tested v \<Longrightarrow> isTextRange v = Inr True \<Longrightarrow> serializeObject n h v c =
    (map_outcome (\<lambda>fs. TObj [(''__TextRange__'', TObj fs)]) (reads v [''start'', ''length'']), c)"
  by (simp add: serializeObject.simps shape_tested_def split: internal.splits)

lemma collection_calls_no_props [simp]: "props v = [] \<Longrightarrow> collection_calls v xs = Returns ()"
  by (simp add: collection_calls_def)

lemma serializeObject_TextRangeCollection:
  "internal v = TextRangeCollectionOf xs \<Longrightarrow> isTextRange v = Inr False \<Longrightarrow>
   serializeObject n h v c =
     (case collection_calls v xs of
        Throws e \<Rightarrow> (Throws e, c)
      | Stuck \<Rightarrow> (Stuck, c)
      | Returns u \<Rightarrow>
          wrap (\<lambda>items. TObj [(''__TextRangeCollection__'',
                 TObj [(''items'', TArr items), (''count'', Raw (VNum (int (length xs))))])])
            (serializeItems n h xs c))"
  by (simp add: serializeObject.simps)

lemma serializeObject_Diagnostic:
  "internal v = Ordinary \<or> is_array v \<Longrightarrow> isTextRange v = Inr False \<Longrightarrow> isDiagnostic v \<Longrightarrow>
   serializeObject n h v c =
     (case reads v [''category'', ''message''] of
        Throws e \<Rightarrow> (Throws e, c)
      | Stuck \<Rightarrow> (Stuck, c)
      | Returns fs \<Rightarrow>
          (case read v ''range'' of
            Inl e \<Rightarrow> (Throws e, c)
          | Inr r \<Rightarrow>
              wrap (\<lambda>t. TObj [(''__Diagnostic__'', TObj (fs @ [(''range'', t)]))])
                (serializeValue n h r c)))"
  by (auto simp: serializeObject.simps is_array_def isParseNode_after_isTextRange split: internal.splits)

lemma serializeObject_Array:
  "internal v = ArrayOf xs \<Longrightarrow> isTextRange v = Inr False \<Longrightarrow> \<not> isDiagnostic v \<Longrightarrow>
   serializeObject n h v c =
     (case lookup_method v ''map'' of
        Throws e \<Rightarrow> (Throws e, c)
      | Stuck \<Rightarrow> (Stuck, c)
      | Returns u \<Rightarrow> wrap TArr (serializeItems n h xs c))"
  by (simp add: serializeObject.simps isParseNode_after_isTextRange)

lemma serializeObject_record:
  "internal v = Ordinary \<Longrightarrow> isTextRange v = Inr False \<Longrightarrow> \<not> isDiagnostic v \<Longrightarrow>
   serializeObject n h v c = wrap TObj (serializeProps n h v (for_in_keys v) [] c)"
  by (simp add: serializeObject.simps isParseNode_after_isTextRange)

lemma object_branch [case_names Date RegExp Map Set GuardThrows TextRange Collection Diagnostic Array Record]:
  obtains d where "internal v = DateOf d"
  | s f where "internal v = RegExpOf s f"
  | es where "internal v = MapOf es"
  | xs where "internal v = SetOf xs"
  | e where "shape_tested v" "isTextRange v = Inl e"
  | "shape_tested v" "isTextRange v = Inr True"
  | xs where "internal v = TextRangeCollectionOf xs" "isTextRange v = Inr False"
  | "internal v = Ordinary \<or> is_array v" "isTextRange v = Inr False" "isDiagnostic v"
  | xs where "internal v = ArrayOf xs" "isTextRange v = Inr False" "\<not> isDiagnostic v"
  | "internal v = Ordinary" "isTextRange v = Inr False" "\<not> isDiagnostic v"
proof (cases "internal v")
  case Ordinary
  then have st: "shape_tested v" by (simp add: shape_tested_def)
  show ?thesis
  proof (cases "isTextRange v")
    case (Inl e) with st show ?thesis by (rule that(5))
  next
    case (Inr b)
    show ?thesis
    proof (cases b)
      case True with Inr st show ?thesis by (intro that(6)) simp_all
    next
      case False
      with Inr have tr: "isTextRange v = Inr False" by simp
      show ?thesis
      proof (cases "isDiagnostic v")
        case True with Ordinary tr show ?thesis by (intro that(8)) simp_all
      next
        case False with Ordinary tr show ?thesis by (intro that(10)) simp_all
      qed
    qed
  qed
next
  case (ArrayOf xs)
  then have st: "shape_tested v" and arr: "is_array v"
    by (simp_all add: shape_tested_def is_array_def)
  show ?thesis
  proof (cases "isTextRange v")
    case (Inl e) with st show ?thesis by (rule that(5))
  next
    case (Inr b)
    show ?thesis
    proof (cases b)
      case True with Inr st show ?thesis by (intro that(6)) simp_all
    next
      case False
      with Inr have tr: "isTextRange v = Inr False" by simp
      show ?thesis
      proof (cases "isDiagnostic v")
        case True with arr tr show ?thesis by (intro that(8)) simp_all
      next
        case False with ArrayOf tr show ?thesis by (intro that(9)) simp_all
      qed
    qed
  qed
next
  case (TextRangeCollectionOf xs)
  then have st: "shape_tested v" by (simp add: shape_tested_def)
  show ?thesis
  proof (cases "isTextRange v")
    case (Inl e) with st show ?thesis by (rule that(5))
  next
    case (Inr b)
    show ?thesis
    proof (cases b)
      case True with Inr st show ?thesis by (intro that(6)) simp_all
    next
      case False
      with Inr TextRangeCollectionOf show ?thesis by (intro that(7)) simp_all
    qed
  qed
next
  case (DateOf d) then show ?thesis by (rule that(1))
next
  case (RegExpOf s f) then show ?thesis by (rule that(2))
next
  case (MapOf es) then show ?thesis by (rule that(3))
next
  case (SetOf xs) then show ?thesis by (rule that(4))
qed

lemma extends_refl [simp]: "extends c c"
  by (simp add: extends_def)

lemma extends_trans: "extends c c' \<Longrightarrow> extends c' c'' \<Longrightarrow> extends c c''"
  by (simp add: extends_def)

lemma extends_mark: "seen c a = None \<Longrightarrow> extends c (mark a c)"
  unfolding extends_def ids_ok_def mark_def
  by (auto simp: less_Suc_eq split: if_splits)

lemma serializeValue_VRef:
  "serializeValue (Suc n) h (VRef a) c =
    (case seen c a of
      Some refId \<Rightarrow> (Returns (TObj [(''__Circular__'', Raw (VNum (int refId)))]), c)
    | None \<Rightarrow> if a < length h then serializeObject n h (h ! a) (mark a c) else (Stuck, c))"
  by (simp add: mark_def split: option.splits)


lemma extends_Items:
  assumes "\<And>v c. extends c (snd (serializeValue n h v c))"
  shows "extends c (snd (serializeItems n h xs c))"
proof (induction xs arbitrary: c)
  case Nil show ?case by simp
next
  case (Cons x xs)
  obtain r c1 where 1: "serializeValue n h x c = (r, c1)" by force
  with assms [of c x] have e1: "extends c c1" by simp
  show ?case using 1 e1 Cons [of c1]
    by (cases r) (auto intro: extends_trans)
qed

lemma extends_Entries:
  assumes "\<And>v c. extends c (snd (serializeValue n h v c))"
  shows "extends c (snd (serializeEntries n h es c))"
proof (induction es arbitrary: c)
  case Nil show ?case by simp
next
  case (Cons kv es)
  obtain k v where kv: "kv = (k, v)" by force
  obtain r1 c1 where 1: "serializeValue n h k c = (r1, c1)" by force
  obtain r2 c2 where 2: "serializeValue n h v c1 = (r2, c2)" by force
  from assms [of c k] 1 have e1: "extends c c1" by simp
  from assms [of c1 v] 2 have e2: "extends c1 c2" by simp
  show ?case using kv 1 2 e1 e2 Cons [of c2]
    by (cases r1; cases r2) (auto intro: extends_trans)
qed

lemma extends_Props:
  assumes "\<And>v c. extends c (snd (serializeValue n h v c))"
  shows "extends c (snd (serializeProps n h v ks acc c))"
proof (induction ks arbitrary: c acc)
  case Nil show ?case by simp
next
  case (Cons k ks)
  show ?case
  proof (cases "hasOwnProperty v k")
    case False
    then show ?thesis using Cons by simp
  next
    case True
    show ?thesis
    proof (cases "read v k")
      case (Inl e)
      then show ?thesis using True Cons by simp
    next
      case (Inr x)
      obtain r c1 where 1: "serializeValue n h x c = (r, c1)" by force
      with assms [of c x] have e1: "extends c c1" by simp
      show ?thesis using True Inr 1 e1 Cons [of c1]
        by (cases r) (auto intro: extends_trans)
    qed
  qed
qed

lemma extends_Object:
  assumes "\<And>v c. extends c (snd (serializeValue n h v c))"
  shows "extends c (snd (serializeObject n h v c))"
proof (cases v rule: object_branch)
  case (Date d) then show ?thesis by (simp add: serializeObject_Date)
next
  case (RegExp s f) then show ?thesis by (simp add: serializeObject_RegExp)
next
  case (Map es) then show ?thesis
    by (simp add: serializeObject_Map extends_Entries assms split: outcome.splits)
next
  case (Set xs) then show ?thesis by (simp add: serializeObject_Set extends_Items assms)
next
  case (GuardThrows e) then show ?thesis by (simp add: serializeObject_guard_throws)
next
  case TextRange then show ?thesis by (simp add: serializeObject_TextRange)
next
  case (Collection xs) then show ?thesis
    by (simp add: serializeObject_TextRangeCollection extends_Items assms split: outcome.splits)
next
  case Diagnostic then show ?thesis
    by (simp add: serializeObject_Diagnostic assms split: outcome.splits sum.splits)
next
  case (Array xs) then show ?thesis
    by (simp add: serializeObject_Array extends_Items assms split: outcome.splits)
next
  case Record then show ?thesis by (simp add: serializeObject_record extends_Props assms)
qed

lemma extends_Value: "extends c (snd (serializeValue n h v c))"
proof (induction n arbitrary: v c)
  case 0 show ?case by simp
next
  case (Suc n)
  show ?case
  proof (cases v)
    case (VRef a)
    show ?thesis
    proof (cases "seen c a")
      case None
      with extends_mark [OF None] extends_Object [of n h "mark a c" "h ! a", OF Suc]
      show ?thesis unfolding VRef serializeValue_VRef
        by (auto intro: extends_trans)
    next
      case (Some i) then show ?thesis unfolding VRef serializeValue_VRef by simp
    qed
  qed simp_all
qed



subsection \<open>Closed heaps and pure trees\<close>

lemma unseen_mono: "extends c c' \<Longrightarrow> unseen h c' \<le> unseen h c"
  unfolding unseen_def extends_def
proof (rule card_mono)
  assume e: "(\<forall>a i. seen c a = Some i \<longrightarrow> seen c' a = Some i) \<and>
    refCount c \<le> refCount c' \<and> refs c' = refs c \<and> (ids_ok c \<longrightarrow> ids_ok c')"
  show "{a. a < length h \<and> seen c' a = None} \<subseteq> {a. a < length h \<and> seen c a = None}"
  proof
    fix a assume "a \<in> {a. a < length h \<and> seen c' a = None}"
    then have a: "a < length h" "seen c' a = None" by simp_all
    have "seen c a = None"
    proof (cases "seen c a")
      case (Some i) with e a(2) show ?thesis by force
    qed simp
    with a show "a \<in> {a. a < length h \<and> seen c a = None}" by simp
  qed
qed simp

lemma unseen_mark: "seen c a = None \<Longrightarrow> a < length h \<Longrightarrow> unseen h (mark a c) < unseen h c"
  unfolding unseen_def
  by (rule psubset_card_mono) (auto simp: mark_def)

lemma read_in_heap:
  assumes "list_all (in_heap h) (values_of v)" "read v k = Inr x"
  shows "in_heap h x"
proof -
  have "\<And>p. find (\<lambda>p. name p = k) (props v) = Some p \<Longrightarrow> slot p = Data x \<Longrightarrow> in_heap h x"
  proof -
    fix p assume f: "find (\<lambda>p. name p = k) (props v) = Some p" and s: "slot p = Data x"
    from f have "p \<in> set (props v)" by (auto simp: find_Some_iff)
    then have "x \<in> set (values_of v)"
      using s by (force simp: values_of_def)
    with assms(1) show "in_heap h x"
      by (simp add: list_all_iff)
  qed
  with assms(2) show ?thesis
    by (auto simp: read_def find_prop_def split: internal.splits if_splits option.splits slot.splits prod.splits bool.splits)
qed

lemma pure_set_prop:
  "list_all (\<lambda>(k, t). pure t) acc \<Longrightarrow> pure t \<Longrightarrow> list_all (\<lambda>(k, t). pure t) (set_prop acc k t)"
  by (induction acc k t rule: set_prop.induct) auto

lemma isTextRange_True:
  "isTextRange v = Inr True \<Longrightarrow> \<exists>s l. read v ''start'' = Inr (VNum s) \<and> read v ''length'' = Inr (VNum l)"
proof -
  assume a: "isTextRange v = Inr True"
  have num: "typeof x = ''number'' \<Longrightarrow> \<exists>i. x = VNum i" for x
    by (cases x) simp_all
  from a obtain s where s: "read v ''start'' = Inr s" "typeof s = ''number''"
    by (auto simp: isTextRange_def split: sum.splits if_splits)
  with a obtain l where l: "read v ''length'' = Inr l" "typeof l = ''number''"
    by (auto simp: isTextRange_def split: sum.splits if_splits)
  from s l num show ?thesis by blast
qed

subsection \<open>JSON.stringify on pure trees\<close>

lemma le_fold_max: "(a::nat) \<le> fold max xs a"
  by (induction xs arbitrary: a) (auto intro: order_trans [OF max.cobounded2])

lemma mem_le_fold_max: "(x::nat) \<in> set xs \<Longrightarrow> x \<le> fold max xs a"
proof (induction xs arbitrary: a)
  case (Cons y ys)
  show ?case
  proof (cases "x = y")
    case True
    have "x \<le> max y a" using True by simp
    also have "\<dots> \<le> fold max ys (max y a)" by (rule le_fold_max)
    finally show ?thesis by simp
  next
    case False with Cons show ?thesis by simp
  qed
qed simp

lemma tree_depth_elem: "t \<in> set ts \<Longrightarrow> tree_depth t < tree_depth (TArr ts)"
  using mem_le_fold_max [of "tree_depth t" "map tree_depth ts" 0] by (simp add: less_Suc_eq_le)

lemma tree_depth_value: "(k, t) \<in> set kvs \<Longrightarrow> tree_depth t < tree_depth (TObj kvs)"
  using mem_le_fold_max [of "tree_depth t" "map (\<lambda>(k, t). tree_depth t) kvs" 0]
  by (force simp: less_Suc_eq_le)

lemma toJSON_pure: "pure t \<Longrightarrow> toJSON h t = t"
  by (cases t) (auto simp: toJSON_def split: jsval.splits)

lemma stringify_Array:
  assumes "\<And>t. t \<in> set ts \<Longrightarrow> SerializeJSONProperty n None h stack t st = (Returns (json_of t), st)"
  shows "SerializeJSONArray n None h stack ts st =
    (Returns (map (\<lambda>t. case json_of t of None \<Rightarrow> JNull | Some j \<Rightarrow> j) ts), st)"
  using assms by (induction ts) simp_all

lemma stringify_Object:
  assumes "\<And>k t. (k, t) \<in> set kvs \<Longrightarrow>
    SerializeJSONProperty n None h stack t st = (Returns (json_of t), st)"
  shows "SerializeJSONObject n None h stack (map (\<lambda>(k, t). (k, Inr t)) kvs) st =
    (Returns (concat (map (\<lambda>(k, t). case json_of t of None \<Rightarrow> [] | Some j \<Rightarrow> [(k, j)]) kvs)), st)"
  using assms
proof (induction kvs)
  case (Cons kv kvs)
  obtain k t where kv: "kv = (k, t)" by force
  from Cons.prems [of k t] kv have
    "SerializeJSONProperty n None h stack t st = (Returns (json_of t), st)" by simp
  moreover have "SerializeJSONObject n None h stack (map (\<lambda>(k, t). (k, Inr t)) kvs) st =
    (Returns (concat (map (\<lambda>(k, t). case json_of t of None \<Rightarrow> [] | Some j \<Rightarrow> [(k, j)]) kvs)), st)"
  proof (rule Cons.IH)
    fix k t assume "(k, t) \<in> set kvs"
    then show "SerializeJSONProperty n None h stack t st = (Returns (json_of t), st)"
      using Cons.prems [of k t] by simp
  qed
  ultimately show ?case using kv by (cases "json_of t") simp_all
qed simp

lemma stringify_pure:
  "pure t \<Longrightarrow> tree_depth t < n \<Longrightarrow>
   SerializeJSONProperty n None h stack t st = (Returns (json_of t), st)"
proof (induction t arbitrary: n)
  case (Raw v)
  then obtain m where "n = Suc m" by (cases n) auto
  with Raw show ?case by (cases v) (simp_all add: toJSON_pure)
next
  case (TArr ts)
  then obtain m where n: "n = Suc m" by (cases n) auto
  have "SerializeJSONProperty m None h stack t st = (Returns (json_of t), st)"
    if "t \<in> set ts" for t
    using that TArr.IH [of t m] TArr.prems tree_depth_elem [OF that] n
    by (simp add: list_all_iff)
  from stringify_Array [of ts m h stack st, OF this] TArr.prems n show ?case
    by (simp add: toJSON_pure)
next
  case (TObj kvs)
  then obtain m where n: "n = Suc m" by (cases n) auto
  have "SerializeJSONProperty m None h stack t st = (Returns (json_of t), st)"
    if "(k, t) \<in> set kvs" for k t
    using that TObj.IH [of "(k, t)" t m] TObj.prems tree_depth_value [OF that] n
    by (auto simp: list_all_iff)
  from stringify_Object [of kvs m h stack st, OF this] TObj.prems n show ?case
    by (simp add: toJSON_pure)
qed

lemma JSON_stringify_pure:
  "pure t \<Longrightarrow> JSON_stringify None h t st = (Returns (map_option Text (json_of t)), st)"
  using stringify_pure [of t "Suc (tree_depth t + length h)" h "[]" st]
  by (simp add: JSON_stringify_def del: SerializeJSONProperty.simps)

lemma serialize_Returns:
  assumes "fst (serializeValue (Suc (length h)) h v \<lparr>seen = Map.empty, refs = [], refCount = 0\<rparr>)
      = Returns t" "pure t"
  shows "serialize h v = Returns (Text (document t))"
proof -
  let ?c0 = "\<lparr>seen = Map.empty, refs = [], refCount = 0\<rparr>"
  define c' where "c' = snd (serializeValue (Suc (length h)) h v ?c0)"
  have 1: "serializeValue (Suc (length h)) h v ?c0 = (Returns t, c')"
    using assms(1) by (simp add: c'_def prod_eq_iff)
  have "extends ?c0 c'" unfolding c'_def by (rule extends_Value)
  then have r: "refs c' = []" by (simp add: extends_def)
  have "pure (TObj [(''version'', Raw (VNum 1)), (''data'', t), (''refs'', TArr [])])"
    using assms(2) by simp
  from JSON_stringify_pure [OF this, of h "()"] 1 r show ?thesis
    by (cases "json_of t") (simp_all add: serialize_def document_def del: serializeValue.simps)
qed

subsection \<open>The loop over the keys of a record\<close>









lemma for_in_keys_enumerable:
  "k \<in> set (for_in_keys v) \<Longrightarrow> \<exists>p \<in> set (props v). name p = k \<and> enumerable p"
  by (auto simp: for_in_keys_def)

lemma hasOwnProperty_own:
  "hasOwnProperty v k \<Longrightarrow> internal v = Ordinary \<Longrightarrow> \<exists>p \<in> set (props v). name p = k \<and> own p"
  by (auto simp: hasOwnProperty_def is_array_def find_prop_def find_Some_iff split: option.splits)

subsection \<open>Decoding the document of a supported tree\<close>

lemma set_prop_append:
  "k \<notin> set (map fst acc) \<Longrightarrow> k \<noteq> ''__proto__'' \<Longrightarrow> set_prop acc k v = acc @ [(k, v)]"
  by (induction acc k v rule: set_prop.induct) auto

lemma map_fst_2: "map fst kvs = [k1, k2] \<Longrightarrow> \<exists>v1 v2. kvs = [(k1, v1), (k2, v2)]"
  by (cases kvs; cases "tl kvs") auto

lemma map_fst_3: "map fst kvs = [k1, k2, k3] \<Longrightarrow> \<exists>v1 v2 v3. kvs = [(k1, v1), (k2, v2), (k3, v3)]"
  by (cases kvs; cases "tl kvs"; cases "tl (tl kvs)") auto

lemma is_number_D: "is_number x \<Longrightarrow> \<exists>n. x = Some (DNum n)"
  by (cases x rule: is_number.cases) simp_all

lemma of_json_scalar: "is_scalar d \<Longrightarrow> of_json (jenc d) = d"
  by (cases d) simp_all

lemma deserialize_record:
  assumes "\<And>t. t \<in> set TYPE_MARKERS \<Longrightarrow> map_of kvs t = None"
  shows "deserializeValue H (Some (JObj kvs)) c rs =
    (case deserializeProps H kvs [] c rs of Inl e \<Rightarrow> Inl e | Inr ps \<Rightarrow> Inr (DObject ps))"
proof -
  have "map_of kvs ''__Circular__'' = None" "map_of kvs ''__Date__'' = None"
    "map_of kvs ''__RegExp__'' = None" "map_of kvs ''__Map__'' = None"
    "map_of kvs ''__Set__'' = None" "map_of kvs ''__TextRange__'' = None"
    "map_of kvs ''__TextRangeCollection__'' = None" "map_of kvs ''__ParseNode__'' = None"
    "map_of kvs ''__Diagnostic__'' = None"
    by (rule assms, simp add: TYPE_MARKERS_def)+
  then show ?thesis by simp
qed

lemma map_of_jenc_None:
  "k \<notin> set (map fst kvs) \<Longrightarrow> map_of (map (\<lambda>(k, d). (k, f d)) kvs) k = None"
  by (induction kvs) auto

lemma decode_jenc:
  "supported H d \<Longrightarrow> deserializeValue H (Some (jenc d)) c rs = Inr d"
  "supported_items H ds \<Longrightarrow> deserializeItems H (map jenc ds) c rs = Inr ds"
  "supported_entries H es \<Longrightarrow>
     deserializeEntries H (map (\<lambda>(k, x). JArr [jenc k, jenc x]) es) c rs = Inr es"
  "supported_props H kvs \<Longrightarrow>
     (\<forall>(k, d) \<in> set kvs. deserializeValue H (Some (jenc d)) c rs = Inr d)
     \<and> (\<forall>acc. distinct (map fst acc @ map fst kvs) \<and> ''__proto__'' \<notin> set (map fst kvs) \<longrightarrow>
          deserializeProps H (map (\<lambda>(k, d). (k, jenc d)) kvs) acc c rs = Inr (acc @ kvs))"
proof (induction H d and H ds and H es and H kvs
    rule: supported_supported_items_supported_entries_supported_props.induct)
  case (6 H j)
  then show ?case by (cases j) simp_all
next
  case (7 H so fo)
  then show ?case
    by (auto split: option.splits json.splits)
next
  case (8 H ds)
  then show ?case by simp
next
  case (9 H ds)
  then show ?case by simp
next
  case (10 H d)
  from "10.prems" obtain ds where d: "d = DArray ds" and s: "supported_items H ds"
    by (cases d) simp_all
  from "10.IH" [OF d s] show ?case by (simp add: d)
next
  case (11 H ds)
  then show ?case by simp
next
  case (12 H kvs)
  from "12.prems" have sp: "supported_props H kvs" by simp
  note IH = "12.IH" [OF sp]
  show ?case
  proof (cases "text_range_shaped kvs")
    case True
    with "12.prems" have "map fst kvs = [''start'', ''length'']" by simp
    from map_fst_2 [OF this] obtain v1 v2 where kvs: "kvs = [(''start'', v1), (''length'', v2)]"
      by blast
    with True obtain s l where "v1 = DNum s" "v2 = DNum l"
      by (auto simp: text_range_shaped_def dest!: is_number_D)
    with kvs True show ?thesis by simp
  next
    case False
    note not_tr = this
    show ?thesis
    proof (cases "diagnostic_shaped kvs")
      case True
      with not_tr "12.prems" have m: "map fst kvs = [''category'', ''message'', ''range'']"
        and sc: "is_scalar (snd (kvs ! 0))" "is_scalar (snd (kvs ! 1))" by simp_all
      from map_fst_3 [OF m] obtain v1 v2 v3 where
        kvs: "kvs = [(''category'', v1), (''message'', v2), (''range'', v3)]" by blast
      from IH kvs have "deserializeValue H (Some (jenc v3)) c rs = Inr v3" by simp
      with kvs sc True not_tr show ?thesis by (simp add: of_json_scalar)
    next
      case False
      with not_tr "12.prems" have d: "distinct (map fst kvs)"
        and t: "list_all (\<lambda>k. k \<notin> set TYPE_MARKERS \<and> k \<noteq> ''__proto__'') (map fst kvs)" by simp_all
      have "map_of (map (\<lambda>(k, d). (k, jenc d)) kvs) t = None" if "t \<in> set TYPE_MARKERS" for t
        using t that by (intro map_of_jenc_None) (auto simp: list_all_iff)
      from deserialize_record [of "map (\<lambda>(k, d). (k, jenc d)) kvs" H c rs, OF this]
      have "deserializeValue H (Some (JObj (map (\<lambda>(k, d). (k, jenc d)) kvs))) c rs =
        (case deserializeProps H (map (\<lambda>(k, d). (k, jenc d)) kvs) [] c rs of
           Inl e \<Rightarrow> Inl e | Inr ps \<Rightarrow> Inr (DObject ps))" .
      moreover have "distinct (map fst [] @ map fst kvs) \<and> ''__proto__'' \<notin> set (map fst kvs)"
        using d t by (auto simp: list_all_iff)
      with IH have
        "deserializeProps H (map (\<lambda>(k, d). (k, jenc d)) kvs) [] c rs = Inr ([] @ kvs)"
        by blast
      ultimately show ?thesis using False not_tr by simp
    qed
  qed
next
  case (14 H d ds)
  then show ?case by simp
next
  case (16 H dk dx ds)
  then show ?case by simp
next
  case (18 H k d kvs)
  from "18.prems" have s: "supported H d" "supported_props H kvs" by simp_all
  note IH1 = "18.IH"(1) [OF s(1)] and IH2 = "18.IH"(2) [OF s(2)]
  show ?case
  proof (intro conjI allI impI)
    show "\<forall>(k, d)\<in>set ((k, d) # kvs). deserializeValue H (Some (jenc d)) c rs = Inr d"
      using IH1 IH2 by simp
    fix acc :: "(string \<times> dval) list"
    assume a: "distinct (map fst acc @ map fst ((k, d) # kvs)) \<and>
      ''__proto__'' \<notin> set (map fst ((k, d) # kvs))"
    then have "set_prop acc k d = acc @ [(k, d)]"
      by (intro set_prop_append) auto
    moreover from a have "distinct (map fst (acc @ [(k, d)]) @ map fst kvs) \<and>
      ''__proto__'' \<notin> set (map fst kvs)" by auto
    with IH2 have "deserializeProps H (map (\<lambda>(k, d). (k, jenc d)) kvs) (acc @ [(k, d)]) c rs =
      Inr ((acc @ [(k, d)]) @ kvs)" by blast
    ultimately show "deserializeProps H (map (\<lambda>(k, d). (k, jenc d)) ((k, d) # kvs)) acc c rs =
      Inr (acc @ (k, d) # kvs)"
      using IH1 by simp
  qed
qed simp_all

subsection \<open>Supported trees and the objects that represent them\<close>

lemmas represents_unfold = represents.simps

lemmas nodes_unfold = nodes.simps

declare represents.simps [simp del] nodes.simps [simp del]

lemma represents_VRef [simp]:
  "represents h (VRef a) d =
    (a < length h \<and> kind_matches (internal (h ! a)) d \<and> represents_object h (h ! a) d)"
  by (simp add: represents_unfold)

lemma nodes_VRef [simp]: "nodes h (VRef a) d = a # nodes_object h (h ! a) d"
  by (simp add: nodes_unfold)

lemma supported_not_undefined: "supported H d \<Longrightarrow> enc d \<noteq> Raw VUndefined"
  by (cases d) (simp_all split: if_splits)

lemma json_of_enc:
  "supported H d \<Longrightarrow> json_of (enc d) = Some (jenc d)"
  "supported_items H ds \<Longrightarrow> map (\<lambda>t. case json_of t of None \<Rightarrow> JNull | Some j \<Rightarrow> j) (map enc ds) = map jenc ds"
  "supported_entries H es \<Longrightarrow>
     map (\<lambda>t. case json_of t of None \<Rightarrow> JNull | Some j \<Rightarrow> j) (map (\<lambda>(k, x). TArr [enc k, enc x]) es)
       = map (\<lambda>(k, x). JArr [jenc k, jenc x]) es"
  "supported_props H kvs \<Longrightarrow>
     concat (map (\<lambda>(k, t). case json_of t of None \<Rightarrow> [] | Some j \<Rightarrow> [(k, j)])
       (map (\<lambda>(k, d). (k, enc d)) kvs)) = map (\<lambda>(k, d). (k, jenc d)) kvs"
proof (induction H d and H ds and H es and H kvs
    rule: supported_supported_items_supported_entries_supported_props.induct)
  case (6 H j)
  then show ?case by (cases j) simp_all
next
  case (7 H so fo)
  then show ?case by (auto split: option.splits json.splits)
next
  case (10 H d)
  from "10.prems" obtain ds where d: "d = DArray ds" and s: "supported_items H ds"
    by (cases d) simp_all
  from "10.IH" [OF d s] show ?case by (simp add: d)
qed simp_all

lemma pure_enc:
  "supported H d \<Longrightarrow> pure (enc d)"
  "supported_items H ds \<Longrightarrow> list_all pure (map enc ds)"
  "supported_entries H es \<Longrightarrow> list_all pure (map (\<lambda>(k, x). TArr [enc k, enc x]) es)"
  "supported_props H kvs \<Longrightarrow> list_all (\<lambda>(k, t). pure t) (map (\<lambda>(k, d). (k, enc d)) kvs)"
proof (induction H d and H ds and H es and H kvs
    rule: supported_supported_items_supported_entries_supported_props.induct)
  case (6 H j)
  then show ?case by (cases j) simp_all
next
  case (7 H so fo)
  then show ?case by (auto split: option.splits json.splits)
next
  case (10 H d)
  from "10.prems" obtain ds where d: "d = DArray ds" and s: "supported_items H ds"
    by (cases d) simp_all
  from "10.IH" [OF d s] show ?case by (simp add: d)
qed simp_all

lemma find_distinct:
  "distinct (map name ps) \<Longrightarrow> p \<in> set ps \<Longrightarrow> find (\<lambda>q. name q = name p) ps = Some p"
  by (induction ps) auto

lemma represents_props_names:
  "represents_props h ps kvs \<Longrightarrow>
   map name ps = map fst kvs \<and> list_all (\<lambda>p. own p \<and> enumerable p) ps"
proof (induction ps arbitrary: kvs)
  case Nil then show ?case by (cases kvs) simp_all
next
  case (Cons p ps) then show ?case by (cases kvs) auto
qed

lemma represents_props_None:
  "represents_props h ps kvs \<Longrightarrow> map_of kvs k = None \<Longrightarrow> find (\<lambda>p. name p = k) ps = None"
proof (induction ps arbitrary: kvs)
  case Nil then show ?case by (cases kvs) simp_all
next
  case (Cons p ps) then show ?case by (cases kvs) (auto split: if_splits)
qed

lemma represents_props_Some:
  "represents_props h ps kvs \<Longrightarrow> map_of kvs k = Some d \<Longrightarrow>
   \<exists>p x. find (\<lambda>p. name p = k) ps = Some p \<and> slot p = Data x \<and> own p \<and> represents h x d"
proof (induction ps arbitrary: kvs)
  case Nil then show ?case by (cases kvs) simp_all
next
  case (Cons p ps) then show ?case by (cases kvs) (auto split: if_splits slot.splits)
qed

lemma represents_number: "represents h x d \<Longrightarrow> (typeof x = ''number'') = is_number (Some d)"
  by (cases x; cases d) (simp_all add: represents_unfold scalar_matches_def kind_matches_def)

lemma represents_scalar: "is_scalar d \<Longrightarrow> represents h x d \<Longrightarrow> Raw x = enc d \<and> nodes h x d = []"
  by (cases d; cases x) (simp_all add: represents_unfold nodes_unfold scalar_matches_def kind_matches_def)

subsection \<open>What one call of the encoder visits\<close>

lemma visits_wrap: "visits r t c ns h \<Longrightarrow> visits (wrap f r) (f t) c ns h"
  by (cases r) (simp add: visits_def)

lemma visits_VRef:
  assumes "a < length h" "seen c a = None"
    "visits (serializeObject m h (h ! a) (mark a c)) t (mark a c) ns h"
  shows "visits (serializeValue (Suc m) h (VRef a) c) t c (a # ns) h"
  using assms unfolding serializeValue_VRef visits_def
  by (auto simp: mark_def)

lemma bare_not_TextRange:
  "props v = [] \<Longrightarrow> internal v \<noteq> Ordinary \<Longrightarrow> isTextRange v = Inr False"
  by (cases "internal v") (simp_all add: isTextRange_def read_def find_prop_def)

lemma bare_not_Diagnostic: "props v = [] \<Longrightarrow> \<not> isDiagnostic v"
  by (simp add: isDiagnostic_def has_property_def find_prop_def)

lemma visits_Array:
  assumes "internal v = ArrayOf xs" "props v = []" "visits (serializeItems m h xs c) ts c ns h"
  shows "visits (serializeObject m h v c) (TArr ts) c ns h"
proof -
  have "isTextRange v = Inr False" "\<not> isDiagnostic v"
    using assms(1,2) by (simp_all add: bare_not_TextRange bare_not_Diagnostic)
  with assms(1,2) have "serializeObject m h v c = wrap TArr (serializeItems m h xs c)"
    by (simp add: serializeObject_Array)
  with visits_wrap [OF assms(3), of TArr] show ?thesis by simp
qed

lemma visits_Collection:
  assumes "internal v = TextRangeCollectionOf xs" "props v = []"
    "visits (serializeItems m h xs c) ts c ns h"
  shows "visits (serializeObject m h v c)
    (TObj [(''__TextRangeCollection__'',
       TObj [(''items'', TArr ts), (''count'', Raw (VNum (int (length xs))))])]) c ns h"
proof -
  have "isTextRange v = Inr False"
    using assms(1,2) by (simp add: bare_not_TextRange)
  with assms(1,2) have "serializeObject m h v c =
     wrap (\<lambda>items. TObj [(''__TextRangeCollection__'',
            TObj [(''items'', TArr items), (''count'', Raw (VNum (int (length xs))))])])
       (serializeItems m h xs c)"
    by (simp add: serializeObject_TextRangeCollection)
  with visits_wrap [OF assms(3)] show ?thesis by simp
qed

lemma visits_Set:
  assumes "internal v = SetOf xs" "visits (serializeItems m h xs c) ts c ns h"
  shows "visits (serializeObject m h v c) (TObj [(''__Set__'', TArr ts)]) c ns h"
  using visits_wrap [OF assms(2)] serializeObject_Set [OF assms(1)] by simp

lemma visits_Map:
  assumes "internal v = MapOf es" "props v = []" "visits (serializeEntries m h es c) ts c ns h"
  shows "visits (serializeObject m h v c) (TObj [(''__Map__'', TArr ts)]) c ns h"
  using visits_wrap [OF assms(3)] serializeObject_Map [OF assms(1)] assms(2) by simp

lemma visits_append:
  assumes "visits r1 t1 c ns1 h" "visits r2 t2 (snd r1) ns2 h"
  shows "dom (seen (snd r2)) = dom (seen c) \<union> set (ns1 @ ns2) \<and> (\<forall>a \<in> set (ns1 @ ns2). a < length h)"
  using assms by (auto simp: visits_def)

lemma represents_items_length: "represents_items h xs ds \<Longrightarrow> length xs = length ds"
proof (induction xs arbitrary: ds)
  case Nil then show ?case by (cases ds) simp_all
next
  case (Cons x xs) then show ?case by (cases ds) auto
qed

subsection \<open>Records, text ranges and diagnostics\<close>

lemma ordinary_read_None:
  assumes "internal v = Ordinary" "represents_props h (props v) kvs" "map_of kvs k = None"
  shows "read v k = Inr VUndefined" "\<not> has_property v k"
  using represents_props_None [OF assms(2,3)] assms(1)
  by (simp_all add: read_def find_prop_def has_property_def is_array_def)

lemma ordinary_read_Some:
  assumes "internal v = Ordinary" "represents_props h (props v) kvs" "map_of kvs k = Some d"
  shows "\<exists>x. read v k = Inr x \<and> represents h x d" "has_property v k"
proof -
  from represents_props_Some [OF assms(2,3)] obtain p x where
    p: "find (\<lambda>p. name p = k) (props v) = Some p" "slot p = Data x" "represents h x d"
    by blast
  with assms(1) show "\<exists>x. read v k = Inr x \<and> represents h x d"
    by (simp add: read_def find_prop_def)
  from p show "has_property v k"
    by (simp add: has_property_def find_prop_def)
qed

lemma ordinary_typeof:
  assumes "internal v = Ordinary" "represents_props h (props v) kvs"
  shows "\<exists>x. read v k = Inr x \<and> (typeof x = ''number'') = is_number (map_of kvs k)"
proof (cases "map_of kvs k")
  case None
  with ordinary_read_None(1) [OF assms None] show ?thesis by simp
next
  case (Some d)
  from ordinary_read_Some(1) [OF assms Some] obtain x where
    "read v k = Inr x" "represents h x d" by blast
  with Some represents_number [of h x d] show ?thesis by simp
qed

lemma ordinary_isTextRange:
  assumes "internal v = Ordinary" "represents_props h (props v) kvs"
  shows "isTextRange v = Inr (text_range_shaped kvs)"
proof -
  from ordinary_typeof [OF assms, of "''start''"] obtain s where
    s: "read v ''start'' = Inr s" "(typeof s = ''number'') = is_number (map_of kvs ''start'')"
    by blast
  from ordinary_typeof [OF assms, of "''length''"] obtain l where
    l: "read v ''length'' = Inr l" "(typeof l = ''number'') = is_number (map_of kvs ''length'')"
    by blast
  from s l show ?thesis
    by (simp add: isTextRange_def text_range_shaped_def)
qed

lemma ordinary_has_property:
  assumes "internal v = Ordinary" "represents_props h (props v) kvs"
  shows "has_property v k = (k \<in> set (map fst kvs))"
proof (cases "map_of kvs k")
  case None
  with ordinary_read_None(2) [OF assms None] show ?thesis
    by (simp add: map_of_eq_None_iff)
next
  case (Some d)
  with ordinary_read_Some(2) [OF assms Some] show ?thesis
    by (auto dest: map_of_SomeD intro: rev_image_eqI)
qed

lemma ordinary_isDiagnostic:
  assumes "internal v = Ordinary" "represents_props h (props v) kvs"
  shows "isDiagnostic v = diagnostic_shaped kvs"
  unfolding isDiagnostic_def diagnostic_shaped_def
  by (simp only: ordinary_has_property [OF assms])

lemma ordinary_slots:
  assumes "internal v = Ordinary" "distinct (map name (props v))" "p \<in> set (props v)" "own p"
  shows "hasOwnProperty v (name p)"
    "read v (name p) = (case slot p of Data x \<Rightarrow> Inr x | Accessor_throws e \<Rightarrow> Inl e)"
  using find_distinct [OF assms(2,3)] assms(1,4)
  by (simp_all add: hasOwnProperty_def read_def find_prop_def is_array_def)

lemma represents_DNum: "represents h x (DNum n) \<Longrightarrow> x = VNum n"
  by (cases x) (simp_all add: represents_unfold scalar_matches_def kind_matches_def)

lemma visits_TextRange:
  assumes "internal v = Ordinary" "represents_props h (props v) kvs"
    "kvs = [(''start'', DNum s), (''length'', DNum l)]"
  shows "visits (serializeObject m h v c) (enc (DObject kvs)) c (nodes_props h (props v) kvs) h"
proof -
  have tr: "text_range_shaped kvs" by (simp add: assms(3) text_range_shaped_def)
  with ordinary_isTextRange [OF assms(1,2)] have g: "isTextRange v = Inr True" by simp
  have st: "shape_tested v" using assms(1) by (simp add: shape_tested_def)
  from ordinary_read_Some(1) [OF assms(1,2), of "''start''" "DNum s"]
  have s: "read v ''start'' = Inr (VNum s)" by (auto simp: assms(3) dest: represents_DNum)
  from ordinary_read_Some(1) [OF assms(1,2), of "''length''" "DNum l"]
  have l: "read v ''length'' = Inr (VNum l)" by (auto simp: assms(3) dest: represents_DNum)
  from assms(2,3) obtain p1 p2 where ps: "props v = [p1, p2]"
    by (cases "props v"; cases "tl (props v)"; cases "tl (tl (props v))") auto
  with assms(2,3) have "nodes_props h (props v) kvs = []"
    by (auto simp: nodes_unfold split: slot.splits dest!: represents_DNum)
  with serializeObject_TextRange [OF st g, of m h c] s l tr show ?thesis
    by (simp add: visits_def assms(3))
qed

lemma visits_Diagnostic:
  assumes "internal v = Ordinary" "represents_props h (props v) kvs"
    "kvs = [(''category'', dc), (''message'', dm), (''range'', dr)]"
    "is_scalar dc" "is_scalar dm"
    and R: "\<And>x. represents h x dr \<Longrightarrow> nodes_props h (props v) kvs = nodes h x dr \<Longrightarrow>
        visits (serializeValue m h x c) (enc dr) c (nodes h x dr) h"
  shows "visits (serializeObject m h v c) (enc (DObject kvs)) c (nodes_props h (props v) kvs) h"
proof -
  have ntr: "\<not> text_range_shaped kvs" by (simp add: assms(3) text_range_shaped_def)
  have dg: "diagnostic_shaped kvs" by (simp add: assms(3) diagnostic_shaped_def)
  from ntr ordinary_isTextRange [OF assms(1,2)] have g: "isTextRange v = Inr False" by simp
  from dg ordinary_isDiagnostic [OF assms(1,2)] have d: "isDiagnostic v" by simp
  from assms(2,3) obtain p1 p2 p3 where ps: "props v = [p1, p2, p3]"
    by (cases "props v"; cases "tl (props v)"; cases "tl (tl (props v))";
        cases "tl (tl (tl (props v)))") auto
  with assms(2,3) obtain xc xm xr where
    sl: "slot p1 = Data xc" "slot p2 = Data xm" "slot p3 = Data xr"
    and nm: "name p1 = ''category''" "name p2 = ''message''" "name p3 = ''range''"
    and rp: "represents h xc dc" "represents h xm dm" "represents h xr dr"
    by (auto split: slot.splits)
  from represents_scalar [OF assms(4) rp(1)] represents_scalar [OF assms(5) rp(2)]
  have sc: "Raw xc = enc dc" "nodes h xc dc = []" "Raw xm = enc dm" "nodes h xm dm = []"
    by simp_all
  have rd: "read v ''category'' = Inr xc" "read v ''message'' = Inr xm" "read v ''range'' = Inr xr"
    using assms(1) ps sl nm by (simp_all add: read_def find_prop_def)
  have np: "nodes_props h (props v) kvs = nodes h xr dr"
    using ps sl sc by (simp add: assms(3))
  from R [OF rp(3) np] have "visits (serializeValue m h xr c) (enc dr) c (nodes h xr dr) h" .
  from visits_wrap [OF this, of "\<lambda>t. TObj [(''__Diagnostic__'',
      TObj ([(''category'', Raw xc), (''message'', Raw xm)] @ [(''range'', t)]))]"]
    serializeObject_Diagnostic [OF disjI1 [OF assms(1)] g d, of m h c] rd sc np ntr dg
  show ?thesis by (simp add: assms(3))
qed

subsection \<open>Kinds\<close>

lemma km_Date: "kind_matches i (DDate j) \<Longrightarrow> \<exists>s. i = DateOf (Some s) \<and> j = JStr s"
  by (auto simp: kind_matches_def split: internal.splits option.splits)

lemma km_RegExp: "kind_matches i (DRegExp so fo) \<Longrightarrow>
    \<exists>s f. i = RegExpOf s f \<and> so = Some (JStr s) \<and> fo = Some (JStr f)"
  by (auto simp: kind_matches_def split: internal.splits)

lemma km_Map: "kind_matches i (DMap ds) \<Longrightarrow> \<exists>es. i = MapOf es"
  by (auto simp: kind_matches_def split: internal.splits)

lemma km_Set: "kind_matches i (DSet ds) \<Longrightarrow> \<exists>xs. i = SetOf xs"
  by (auto simp: kind_matches_def split: internal.splits)

lemma km_Collection: "kind_matches i (DTextRangeCollection d) \<Longrightarrow>
    \<exists>xs ds. i = TextRangeCollectionOf xs \<and> d = DArray ds"
  by (auto simp: kind_matches_def split: internal.splits dval.splits)

lemma km_Array: "kind_matches i (DArray ds) \<Longrightarrow> \<exists>xs. i = ArrayOf xs"
  by (auto simp: kind_matches_def split: internal.splits)

lemma km_Object: "kind_matches i (DObject kvs) \<Longrightarrow> i = Ordinary"
  by (auto simp: kind_matches_def split: internal.splits)

lemma visits_scalar:
  "is_scalar d \<Longrightarrow> represents h v d \<Longrightarrow> 0 < n \<Longrightarrow>
   visits (serializeValue n h v c) (enc d) c (nodes h v d) h"
  by (cases d; cases v; cases n)
     (simp_all add: represents_unfold nodes_unfold scalar_matches_def kind_matches_def visits_def)

lemma composite_ref:
  "\<not> is_scalar d \<Longrightarrow> d \<noteq> DUndefined \<Longrightarrow> represents h v d \<Longrightarrow>
   \<exists>a. v = VRef a \<and> a < length h \<and> kind_matches (internal (h ! a)) d
     \<and> represents_object h (h ! a) d"
  by (cases v; cases d) (simp_all add: represents_unfold scalar_matches_def)

lemma visits_composite:
  assumes "a < length h" "distinct (a # ns)" "set (a # ns) \<inter> dom (seen c) = {}"
    "length (a # ns) < n"
    and R: "\<And>m c'. n = Suc m \<Longrightarrow> set ns \<inter> dom (seen c') = {} \<Longrightarrow> length ns < m \<Longrightarrow>
      visits (serializeObject m h (h ! a) c') t c' ns h"
  shows "visits (serializeValue n h (VRef a) c) t c (a # ns) h"
proof -
  from assms(4) obtain m where n: "n = Suc m" by (cases n) auto
  from assms(3) have none: "seen c a = None" by auto
  have "set ns \<inter> dom (seen (mark a c)) = {}"
    using assms(2,3) by (auto simp: mark_def)
  moreover have "length ns < m" using assms(4) n by simp
  ultimately have "visits (serializeObject m h (h ! a) (mark a c)) t (mark a c) ns h"
    by (rule R [OF n])
  from visits_VRef [OF assms(1) none this] n show ?thesis by simp
qed

subsection \<open>Encoding a tree-shaped value\<close>

lemma encode_supported:
  fixes h :: heap
  shows "supported H d \<Longrightarrow> represents h v d \<Longrightarrow> distinct (nodes h v d) \<Longrightarrow>
      set (nodes h v d) \<inter> dom (seen c) = {} \<Longrightarrow> length (nodes h v d) < n \<Longrightarrow>
      visits (serializeValue n h v c) (enc d) c (nodes h v d) h"
    and "supported_items H ds \<Longrightarrow> represents_items h xs ds \<Longrightarrow> distinct (nodes_items h xs ds) \<Longrightarrow>
      set (nodes_items h xs ds) \<inter> dom (seen c) = {} \<Longrightarrow> length (nodes_items h xs ds) < n \<Longrightarrow>
      visits (serializeItems n h xs c) (map enc ds) c (nodes_items h xs ds) h"
    and "supported_entries H es \<Longrightarrow> represents_entries h ys es \<Longrightarrow>
      distinct (nodes_entries h ys es) \<Longrightarrow>
      set (nodes_entries h ys es) \<inter> dom (seen c) = {} \<Longrightarrow> length (nodes_entries h ys es) < n \<Longrightarrow>
      visits (serializeEntries n h ys c) (map (\<lambda>(k, x). TArr [enc k, enc x]) es) c
        (nodes_entries h ys es) h"
    and "supported_props H kvs \<Longrightarrow>
      (\<forall>k d x c n. (k, d) \<in> set kvs \<longrightarrow> represents h x d \<longrightarrow> distinct (nodes h x d) \<longrightarrow>
          set (nodes h x d) \<inter> dom (seen c) = {} \<longrightarrow> length (nodes h x d) < n \<longrightarrow>
          visits (serializeValue n h x c) (enc d) c (nodes h x d) h)
      \<and> (\<forall>ps acc c n. represents_props h ps kvs \<longrightarrow>
          (\<forall>p \<in> set ps. hasOwnProperty w (name p) \<and>
             read w (name p) = (case slot p of Data x \<Rightarrow> Inr x | Accessor_throws e \<Rightarrow> Inl e)) \<longrightarrow>
          distinct (nodes_props h ps kvs) \<longrightarrow>
          set (nodes_props h ps kvs) \<inter> dom (seen c) = {} \<longrightarrow>
          length (nodes_props h ps kvs) < n \<longrightarrow>
          distinct (map fst acc @ map fst kvs) \<longrightarrow> ''__proto__'' \<notin> set (map fst kvs) \<longrightarrow>
          visits (serializeProps n h w (map name ps) acc c)
            (acc @ map (\<lambda>(k, d). (k, enc d)) kvs) c (nodes_props h ps kvs) h)"
proof (induction H d and H ds and H es and H kvs arbitrary: v c n and xs c n and ys c n and w
    rule: supported_supported_items_supported_entries_supported_props.induct)
  case (1 H) then show ?case by simp
next
  case (2 H) then show ?case by (intro visits_scalar) simp_all
next
  case (3 H b) then show ?case by (intro visits_scalar) simp_all
next
  case (4 H n) then show ?case by (intro visits_scalar) simp_all
next
  case (5 H s) then show ?case by (intro visits_scalar) simp_all
next
  case (6 H j)
  from composite_ref [OF _ _ "6.prems"(2)] obtain a where
    a: "v = VRef a" "a < length h" "kind_matches (internal (h ! a)) (DDate j)"
      "represents_object h (h ! a) (DDate j)" by auto
  from km_Date [OF a(3)] obtain s where s: "internal (h ! a) = DateOf (Some s)" "j = JStr s"
    by blast
  from a(4) have np: "props (h ! a) = []" by simp
  show ?case unfolding a(1) nodes_VRef
  proof (rule visits_composite [OF a(2)])
    show "visits (serializeObject m h (h ! a) c') (enc (DDate j)) c'
        (nodes_object h (h ! a) (DDate j)) h" for m c'
      using s np by (simp add: serializeObject_Date visits_def)
  qed (use "6.prems" a(1) in simp_all)
next
  case (7 H so fo)
  from composite_ref [OF _ _ "7.prems"(2)] obtain a where
    a: "v = VRef a" "a < length h" "kind_matches (internal (h ! a)) (DRegExp so fo)"
      "represents_object h (h ! a) (DRegExp so fo)" by auto
  from km_RegExp [OF a(3)] obtain s f where
    s: "internal (h ! a) = RegExpOf s f" "so = Some (JStr s)" "fo = Some (JStr f)" by blast
  from a(4) have np: "props (h ! a) = []" by simp
  show ?case unfolding a(1) nodes_VRef
  proof (rule visits_composite [OF a(2)])
    show "visits (serializeObject m h (h ! a) c') (enc (DRegExp so fo)) c'
        (nodes_object h (h ! a) (DRegExp so fo)) h" for m c'
      using s np by (simp add: serializeObject_RegExp visits_def)
  qed (use "7.prems" a(1) in simp_all)
next
  case (8 H ds)
  from composite_ref [OF _ _ "8.prems"(2)] obtain a where
    a: "v = VRef a" "a < length h" "kind_matches (internal (h ! a)) (DMap ds)"
      "represents_object h (h ! a) (DMap ds)" by auto
  from km_Map [OF a(3)] obtain es where es: "internal (h ! a) = MapOf es" by blast
  with a(4) have r: "represents_entries h es ds" and np: "props (h ! a) = []" by simp_all
  from "8.prems"(1) have s: "supported_entries H ds" by simp
  have no: "nodes_object h (h ! a) (DMap ds) = nodes_entries h es ds" using es by simp
  show ?case unfolding a(1) nodes_VRef no
  proof (rule visits_composite [OF a(2)])
    show "visits (serializeObject m h (h ! a) c') (enc (DMap ds)) c' (nodes_entries h es ds) h"
      if "n = Suc m" "set (nodes_entries h es ds) \<inter> dom (seen c') = {}"
        "length (nodes_entries h es ds) < m" for m c'
    proof -
      have "distinct (nodes_entries h es ds)" using "8.prems"(3) a(1) no by simp
      from "8.IH" [OF s r this that(2,3)] visits_Map [OF es np] show ?thesis by simp
    qed
  qed (use "8.prems" a(1) no in simp_all)
next
  case (9 H ds)
  from composite_ref [OF _ _ "9.prems"(2)] obtain a where
    a: "v = VRef a" "a < length h" "kind_matches (internal (h ! a)) (DSet ds)"
      "represents_object h (h ! a) (DSet ds)" by auto
  from km_Set [OF a(3)] obtain xs where xs: "internal (h ! a) = SetOf xs" by blast
  with a(4) have r: "represents_items h xs ds" by simp
  from "9.prems"(1) have s: "supported_items H ds" by simp
  have no: "nodes_object h (h ! a) (DSet ds) = nodes_items h xs ds" using xs by simp
  show ?case unfolding a(1) nodes_VRef no
  proof (rule visits_composite [OF a(2)])
    show "visits (serializeObject m h (h ! a) c') (enc (DSet ds)) c' (nodes_items h xs ds) h"
      if "n = Suc m" "set (nodes_items h xs ds) \<inter> dom (seen c') = {}"
        "length (nodes_items h xs ds) < m" for m c'
    proof -
      have "distinct (nodes_items h xs ds)" using "9.prems"(3) a(1) no by simp
      from "9.IH" [OF s r this that(2,3)] visits_Set [OF xs] show ?thesis by simp
    qed
  qed (use "9.prems" a(1) no in simp_all)
next
  case (10 H d)
  from composite_ref [OF _ _ "10.prems"(2)] obtain a where
    a: "v = VRef a" "a < length h" "kind_matches (internal (h ! a)) (DTextRangeCollection d)"
      "represents_object h (h ! a) (DTextRangeCollection d)" by auto
  from km_Collection [OF a(3)] obtain xs ds where
    xs: "internal (h ! a) = TextRangeCollectionOf xs" and d: "d = DArray ds" by blast
  with a(4) have r: "represents_items h xs ds" and p: "props (h ! a) = []" by simp_all
  from "10.prems"(1) d have s: "supported_items H ds" by simp
  have no: "nodes_object h (h ! a) (DTextRangeCollection d) = nodes_items h xs ds"
    using xs d by simp
  have len: "length xs = length ds" using r by (rule represents_items_length)
  show ?case unfolding a(1) nodes_VRef no
  proof (rule visits_composite [OF a(2)])
    show "visits (serializeObject m h (h ! a) c') (enc (DTextRangeCollection d)) c'
        (nodes_items h xs ds) h"
      if "n = Suc m" "set (nodes_items h xs ds) \<inter> dom (seen c') = {}"
        "length (nodes_items h xs ds) < m" for m c'
    proof -
      have "distinct (nodes_items h xs ds)" using "10.prems"(3) a(1) no by simp
      from "10.IH" [OF d s r this that(2,3)] visits_Collection [OF xs p] len d
      show ?thesis by simp
    qed
  qed (use "10.prems" a(1) no in simp_all)
next
  case (11 H ds)
  from composite_ref [OF _ _ "11.prems"(2)] obtain a where
    a: "v = VRef a" "a < length h" "kind_matches (internal (h ! a)) (DArray ds)"
      "represents_object h (h ! a) (DArray ds)" by auto
  from km_Array [OF a(3)] obtain xs where xs: "internal (h ! a) = ArrayOf xs" by blast
  with a(4) have r: "represents_items h xs ds" and p: "props (h ! a) = []" by simp_all
  from "11.prems"(1) have s: "supported_items H ds" by simp
  have no: "nodes_object h (h ! a) (DArray ds) = nodes_items h xs ds" using xs by simp
  show ?case unfolding a(1) nodes_VRef no
  proof (rule visits_composite [OF a(2)])
    show "visits (serializeObject m h (h ! a) c') (enc (DArray ds)) c' (nodes_items h xs ds) h"
      if "n = Suc m" "set (nodes_items h xs ds) \<inter> dom (seen c') = {}"
        "length (nodes_items h xs ds) < m" for m c'
    proof -
      have "distinct (nodes_items h xs ds)" using "11.prems"(3) a(1) no by simp
      from "11.IH" [OF s r this that(2,3)] visits_Array [OF xs p] show ?thesis by simp
    qed
  qed (use "11.prems" a(1) no in simp_all)
next
  case (12 H kvs)
  from composite_ref [OF _ _ "12.prems"(2)] obtain a where
    a: "v = VRef a" "a < length h" "kind_matches (internal (h ! a)) (DObject kvs)"
      "represents_object h (h ! a) (DObject kvs)" by auto
  from km_Object [OF a(3)] have o: "internal (h ! a) = Ordinary" .
  from a(4) have r: "represents_props h (props (h ! a)) kvs" by simp
  from "12.prems"(1) have s: "supported_props H kvs" by simp
  note IH = "12.IH" [OF s, of "h ! a"]
  have no: "nodes_object h (h ! a) (DObject kvs) = nodes_props h (props (h ! a)) kvs" by simp
  have dn: "distinct (nodes_props h (props (h ! a)) kvs)" using "12.prems"(3) a(1) by simp
  show ?case unfolding a(1) nodes_VRef no
  proof (rule visits_composite [OF a(2)])
    show "visits (serializeObject m h (h ! a) c') (enc (DObject kvs)) c'
        (nodes_props h (props (h ! a)) kvs) h"
      if m: "n = Suc m" "set (nodes_props h (props (h ! a)) kvs) \<inter> dom (seen c') = {}"
        "length (nodes_props h (props (h ! a)) kvs) < m" for m c'
    proof (cases "text_range_shaped kvs")
      case True
      with "12.prems"(1) have "map fst kvs = [''start'', ''length'']" by simp
      from map_fst_2 [OF this] obtain v1 v2 where
        kvs: "kvs = [(''start'', v1), (''length'', v2)]" by blast
      with True obtain s l where "v1 = DNum s" "v2 = DNum l"
        by (auto simp: text_range_shaped_def dest!: is_number_D)
      with kvs have "kvs = [(''start'', DNum s), (''length'', DNum l)]" by simp
      with o r show ?thesis by (rule visits_TextRange)
    next
      case False
      note ntr = this
      show ?thesis
      proof (cases "diagnostic_shaped kvs")
        case True
        with ntr "12.prems"(1) have mf: "map fst kvs = [''category'', ''message'', ''range'']"
          and sc: "is_scalar (snd (kvs ! 0))" "is_scalar (snd (kvs ! 1))" by simp_all
        from map_fst_3 [OF mf] obtain dc dm dr where
          kvs: "kvs = [(''category'', dc), (''message'', dm), (''range'', dr)]" by blast
        from sc kvs have sc': "is_scalar dc" "is_scalar dm" by simp_all
        show ?thesis
        proof (rule visits_Diagnostic [OF o r kvs sc'])
          fix x assume x: "represents h x dr"
            "nodes_props h (props (h ! a)) kvs = nodes h x dr"
          from IH kvs have "\<And>x c n. represents h x dr \<Longrightarrow> distinct (nodes h x dr) \<Longrightarrow>
            set (nodes h x dr) \<inter> dom (seen c) = {} \<Longrightarrow> length (nodes h x dr) < n \<Longrightarrow>
            visits (serializeValue n h x c) (enc dr) c (nodes h x dr) h" by simp
          from this [OF x(1)] dn m(2,3) x(2)
          show "visits (serializeValue m h x c') (enc dr) c' (nodes h x dr) h" by simp
        qed
      next
        case False
        with ntr "12.prems"(1) have d: "distinct (map fst kvs)"
          and t: "''__proto__'' \<notin> set (map fst kvs)" by (auto simp: list_all_iff)
        from represents_props_names [OF r] have nm: "map name (props (h ! a)) = map fst kvs"
          and oe: "list_all (\<lambda>p. own p \<and> enumerable p) (props (h ! a))" by simp_all
        from oe have fk: "for_in_keys (h ! a) = map name (props (h ! a))"
          by (simp add: for_in_keys_def list_all_iff filter_id_conv)
        have rd: "\<forall>p \<in> set (props (h ! a)). hasOwnProperty (h ! a) (name p) \<and>
             read (h ! a) (name p) = (case slot p of Data x \<Rightarrow> Inr x | Accessor_throws e \<Rightarrow> Inl e)"
          using ordinary_slots [OF o] d nm oe by (auto simp: list_all_iff)
        from IH r rd dn m(2,3) d t
        have "visits (serializeProps m h (h ! a) (map name (props (h ! a))) [] c')
            ([] @ map (\<lambda>(k, d). (k, enc d)) kvs) c' (nodes_props h (props (h ! a)) kvs) h"
          by (simp del: append_Nil)
        moreover from ntr False ordinary_isTextRange [OF o r] ordinary_isDiagnostic [OF o r]
        have "serializeObject m h (h ! a) c' =
            wrap TObj (serializeProps m h (h ! a) (for_in_keys (h ! a)) [] c')"
          by (intro serializeObject_record [OF o]) simp_all
        ultimately show ?thesis using visits_wrap [of _ _ c' _ h TObj] ntr False fk by simp
      qed
    qed
  qed (use "12.prems" a(1) no in simp_all)
next
  case (13 H)
  then show ?case by (cases xs) (simp_all add: visits_def)
next
  case (14 H d ds)
  from "14.prems"(2) obtain x xs' where xs: "xs = x # xs'" by (cases xs) auto
  with "14.prems" have p: "supported H d" "supported_items H ds" "represents h x d"
    "represents_items h xs' ds" "distinct (nodes h x d)" "distinct (nodes_items h xs' ds)"
    "set (nodes h x d) \<inter> set (nodes_items h xs' ds) = {}"
    "set (nodes h x d) \<inter> dom (seen c) = {}" "set (nodes_items h xs' ds) \<inter> dom (seen c) = {}"
    "length (nodes h x d) < n" "length (nodes_items h xs' ds) < n"
    by auto
  from "14.IH"(1) [OF p(1,3,5,8,10)]
  have 1: "visits (serializeValue n h x c) (enc d) c (nodes h x d) h" .
  define c1 where "c1 = snd (serializeValue n h x c)"
  from 1 have e1: "serializeValue n h x c = (Returns (enc d), c1)"
    and d1: "dom (seen c1) = dom (seen c) \<union> set (nodes h x d)"
    by (simp_all add: visits_def c1_def prod_eq_iff)
  from p(7,9) d1 have "set (nodes_items h xs' ds) \<inter> dom (seen c1) = {}" by auto
  from "14.IH"(2) [OF p(2,4,6) this p(11)]
  have 2: "visits (serializeItems n h xs' c1) (map enc ds) c1 (nodes_items h xs' ds) h" .
  from 1 2 e1 d1 show ?case
    by (auto simp: xs visits_def)
next
  case (15 H)
  then show ?case by (cases ys) (simp_all add: visits_def)
next
  case (16 H dk dx ds)
  from "16.prems"(2) obtain k x ys' where ys: "ys = (k, x) # ys'" by (cases ys) auto
  with "16.prems" have p: "supported H dk" "supported H dx" "supported_entries H ds"
    "represents h k dk" "represents h x dx" "represents_entries h ys' ds"
    "distinct (nodes h k dk)" "distinct (nodes h x dx)" "distinct (nodes_entries h ys' ds)"
    "set (nodes h k dk) \<inter> set (nodes h x dx) = {}"
    "set (nodes h k dk) \<inter> set (nodes_entries h ys' ds) = {}"
    "set (nodes h x dx) \<inter> set (nodes_entries h ys' ds) = {}"
    "set (nodes h k dk) \<inter> dom (seen c) = {}" "set (nodes h x dx) \<inter> dom (seen c) = {}"
    "set (nodes_entries h ys' ds) \<inter> dom (seen c) = {}"
    "length (nodes h k dk) < n" "length (nodes h x dx) < n" "length (nodes_entries h ys' ds) < n"
    by auto
  from "16.IH"(1) [OF p(1,4,7,13,16)]
  have 1: "visits (serializeValue n h k c) (enc dk) c (nodes h k dk) h" .
  define c1 where "c1 = snd (serializeValue n h k c)"
  from 1 have e1: "serializeValue n h k c = (Returns (enc dk), c1)"
    and d1: "dom (seen c1) = dom (seen c) \<union> set (nodes h k dk)"
    by (simp_all add: visits_def c1_def prod_eq_iff)
  from p(10,14) d1 have "set (nodes h x dx) \<inter> dom (seen c1) = {}" by auto
  from "16.IH"(2) [OF p(2,5,8) this p(17)]
  have 2: "visits (serializeValue n h x c1) (enc dx) c1 (nodes h x dx) h" .
  define c2 where "c2 = snd (serializeValue n h x c1)"
  from 2 have e2: "serializeValue n h x c1 = (Returns (enc dx), c2)"
    and d2: "dom (seen c2) = dom (seen c1) \<union> set (nodes h x dx)"
    by (simp_all add: visits_def c2_def prod_eq_iff)
  from p(11,12,15) d1 d2 have "set (nodes_entries h ys' ds) \<inter> dom (seen c2) = {}" by auto
  from "16.IH"(3) [OF p(3,6,9) this p(18)]
  have 3: "visits (serializeEntries n h ys' c2) (map (\<lambda>(k, x). TArr [enc k, enc x]) ds) c2
      (nodes_entries h ys' ds) h" .
  from 1 2 3 e1 e2 d1 d2 show ?case
    by (auto simp: ys visits_def)
next
  case (17 H)
  show ?case
  proof (intro conjI allI impI)
    fix ps :: "property list" and acc :: "(string \<times> tree) list"
      and c :: SerializationContext and n
    assume "represents_props h ps []"
    then have "ps = []" by (cases ps) simp_all
    then show "visits (serializeProps n h w (map name ps) acc c)
        (acc @ map (\<lambda>(k, d). (k, enc d)) []) c (nodes_props h ps []) h"
      by (simp add: visits_def)
  qed simp
next
  case (18 H k d kvs)
  from "18.prems" have s: "supported H d" "supported_props H kvs" by simp_all
  note IH1 = "18.IH"(1) [OF s(1)] and IH2 = "18.IH"(2) [OF s(2), of w]
  show ?case
  proof (intro conjI allI impI)
    fix k' d' x and c :: SerializationContext and n
    assume "(k', d') \<in> set ((k, d) # kvs)" "represents h x d'" "distinct (nodes h x d')"
      "set (nodes h x d') \<inter> dom (seen c) = {}" "length (nodes h x d') < n"
    then show "visits (serializeValue n h x c) (enc d') c (nodes h x d') h"
      using IH1 IH2 by auto
  next
    fix ps :: "property list" and acc :: "(string \<times> tree) list"
      and c :: SerializationContext and n
    assume r: "represents_props h ps ((k, d) # kvs)"
      and rd: "\<forall>p\<in>set ps. hasOwnProperty w (name p) \<and>
          read w (name p) = (case slot p of Data x \<Rightarrow> Inr x | Accessor_throws e \<Rightarrow> Inl e)"
      and dn: "distinct (nodes_props h ps ((k, d) # kvs))"
      and dj: "set (nodes_props h ps ((k, d) # kvs)) \<inter> dom (seen c) = {}"
      and ln: "length (nodes_props h ps ((k, d) # kvs)) < n"
      and dk: "distinct (map fst acc @ map fst ((k, d) # kvs))"
      and pr: "''__proto__'' \<notin> set (map fst ((k, d) # kvs))"
    from r obtain p ps' where ps: "ps = p # ps'" by (cases ps) auto
    with r obtain x where p: "name p = k" "slot p = Data x" "represents h x d"
      "represents_props h ps' kvs" by (auto split: slot.splits)
    from rd ps p have rw: "hasOwnProperty w k" "read w k = Inr x" by auto
    from dn dj ln ps p have q: "distinct (nodes h x d)" "distinct (nodes_props h ps' kvs)"
      "set (nodes h x d) \<inter> set (nodes_props h ps' kvs) = {}"
      "set (nodes h x d) \<inter> dom (seen c) = {}" "set (nodes_props h ps' kvs) \<inter> dom (seen c) = {}"
      "length (nodes h x d) < n" "length (nodes_props h ps' kvs) < n"
      by auto
    from IH1 [OF p(3) q(1,4,6)]
    have 1: "visits (serializeValue n h x c) (enc d) c (nodes h x d) h" .
    define c1 where "c1 = snd (serializeValue n h x c)"
    from 1 have e1: "serializeValue n h x c = (Returns (enc d), c1)"
      and d1: "dom (seen c1) = dom (seen c) \<union> set (nodes h x d)"
      by (simp_all add: visits_def c1_def prod_eq_iff)
    from q(3,5) d1 have dj1: "set (nodes_props h ps' kvs) \<inter> dom (seen c1) = {}" by auto
    from dk pr have sp: "set_prop acc k (enc d) = acc @ [(k, enc d)]"
      by (intro set_prop_append) auto
    from dk have dk': "distinct (map fst (acc @ [(k, enc d)]) @ map fst kvs)" by auto
    from pr have pr': "''__proto__'' \<notin> set (map fst kvs)" by simp
    from rd ps have rd': "\<forall>p\<in>set ps'. hasOwnProperty w (name p) \<and>
          read w (name p) = (case slot p of Data x \<Rightarrow> Inr x | Accessor_throws e \<Rightarrow> Inl e)"
      by simp
    from IH2 p(4) rd' q(2) dj1 q(7) dk' pr'
    have 2: "visits (serializeProps n h w (map name ps') (acc @ [(k, enc d)]) c1)
        ((acc @ [(k, enc d)]) @ map (\<lambda>(k, d). (k, enc d)) kvs) c1 (nodes_props h ps' kvs) h"
      by blast
    from supported_not_undefined [OF s(1)] have nu: "enc d \<noteq> Raw VUndefined" .
    from 1 2 e1 d1 rw sp nu show "visits (serializeProps n h w (map name ps) acc c)
        (acc @ map (\<lambda>(k, d). (k, enc d)) ((k, d) # kvs)) c (nodes_props h ps ((k, d) # kvs)) h"
      by (auto simp: ps p visits_def)
  qed
qed

subsection \<open>From the walk to the document\<close>

lemma distinct_bounded_length:
  assumes "distinct ns" "\<forall>a \<in> set ns. a < (N::nat)"
  shows "length ns \<le> N"
proof -
  from assms(2) have "set ns \<subseteq> {..<N}" by auto
  then have "card (set ns) \<le> card {..<N}" by (intro card_mono) simp_all
  with assms(1) show ?thesis by (simp add: distinct_card)
qed

lemma nodes_in_heap:
  assumes "supported H d" "represents h v d" "distinct (nodes h v d)"
    "set (nodes h v d) \<inter> dom (seen (c :: SerializationContext)) = {}"
  shows "\<forall>a \<in> set (nodes h v d). a < length h"
  using encode_supported(1) [OF assms, of "Suc (length (nodes h v d))"]
  by (simp add: visits_def del: serializeValue.simps)

lemma deserialize_document:
  assumes "supported H d"
  shows "deserialize H (Text (document (enc d))) = Inr d"
  using json_of_enc(1) [OF assms] decode_jenc(1) [OF assms]
  by (simp add: deserialize_def document_def)


subsection \<open>The budget of the walk\<close>

lemma reads_not_Stuck: "reads v ks \<noteq> Stuck"
proof (induction ks)
  case (Cons k ks)
  then show ?case by (cases "read v k"; cases "reads v ks") simp_all
qed simp

lemma not_stuck_Items:
  assumes IH: "\<And>v c. in_heap h v \<Longrightarrow> unseen h c < n \<Longrightarrow> fst (serializeValue n h v c) \<noteq> Stuck"
    and "list_all (in_heap h) xs" "unseen h c < n"
  shows "fst (serializeItems n h xs c) \<noteq> Stuck"
  using assms(2,3)
proof (induction xs arbitrary: c)
  case (Cons x xs)
  obtain r c1 where 1: "serializeValue n h x c = (r, c1)" by force
  have "unseen h c1 \<le> unseen h c"
    using unseen_mono [OF extends_Value, of h n h x c] 1 by simp
  with Cons.prems have u1: "unseen h c1 < n" by simp
  from IH [of x c] Cons.prems 1 have "r \<noteq> Stuck" by auto
  with 1 Cons.IH [OF _ u1] Cons.prems(1) show ?case
    by (cases r; cases "fst (serializeItems n h xs c1)") simp_all
qed simp

lemma not_stuck_Entries:
  assumes IH: "\<And>v c. in_heap h v \<Longrightarrow> unseen h c < n \<Longrightarrow> fst (serializeValue n h v c) \<noteq> Stuck"
    and "list_all (in_heap h) (concat (map (\<lambda>(k, x). [k, x]) es))" "unseen h c < n"
  shows "fst (serializeEntries n h es c) \<noteq> Stuck"
  using assms(2,3)
proof (induction es arbitrary: c)
  case (Cons kv es)
  obtain k v where kv: "kv = (k, v)" by force
  obtain r1 c1 where 1: "serializeValue n h k c = (r1, c1)" by force
  obtain r2 c2 where 2: "serializeValue n h v c1 = (r2, c2)" by force
  have "unseen h c1 \<le> unseen h c"
    using unseen_mono [OF extends_Value, of h n h k c] 1 by simp
  with Cons.prems have u1: "unseen h c1 < n" by simp
  have "unseen h c2 \<le> unseen h c1"
    using unseen_mono [OF extends_Value, of h n h v c1] 2 by simp
  with u1 have u2: "unseen h c2 < n" by simp
  from IH [of k c] Cons.prems 1 kv have n1: "r1 \<noteq> Stuck" by auto
  from IH [of v c1] Cons.prems u1 2 kv have n2: "r2 \<noteq> Stuck" by auto
  from Cons.prems(1) kv have "list_all (in_heap h) (concat (map (\<lambda>(k, x). [k, x]) es))" by simp
  from Cons.IH [OF this u2] kv 1 2 n1 n2 show ?case
    by (cases r1; cases r2; cases "fst (serializeEntries n h es c2)") simp_all
qed simp

lemma not_stuck_Props:
  assumes IH: "\<And>v c. in_heap h v \<Longrightarrow> unseen h c < n \<Longrightarrow> fst (serializeValue n h v c) \<noteq> Stuck"
    and vals: "list_all (in_heap h) (values_of v)" and "unseen h c < n"
  shows "fst (serializeProps n h v ks acc c) \<noteq> Stuck"
  using assms(3)
proof (induction ks arbitrary: c acc)
  case (Cons k ks)
  show ?case
  proof (cases "hasOwnProperty v k")
    case True
    show ?thesis
    proof (cases "read v k")
      case (Inl e) with True Cons show ?thesis by simp
    next
      case (Inr x)
      with vals have xh: "in_heap h x" by (rule read_in_heap)
      obtain r c1 where 1: "serializeValue n h x c = (r, c1)" by force
      have "unseen h c1 \<le> unseen h c"
        using unseen_mono [OF extends_Value, of h n h x c] 1 by simp
      with Cons.prems have u1: "unseen h c1 < n" by simp
      from IH [OF xh Cons.prems] 1 have "r \<noteq> Stuck" by auto
      with True Inr 1 Cons.IH [OF u1] show ?thesis by (cases r) simp_all
    qed
  qed (use Cons in simp)
qed simp

lemma not_stuck_Object:
  assumes IH: "\<And>v c. in_heap h v \<Longrightarrow> unseen h c < n \<Longrightarrow> fst (serializeValue n h v c) \<noteq> Stuck"
    and vals: "list_all (in_heap h) (values_of v)" and u: "unseen h c < n"
    and known: "calls_known v"
  shows "fst (serializeObject n h v c) \<noteq> Stuck"
proof (cases v rule: object_branch)
  case (Date d)
  with known show ?thesis
    by (cases d; cases "lookup_method v ''toISOString''")
       (simp_all add: serializeObject_Date calls_known_def)
next
  case (RegExp s f) then show ?thesis
    by (simp add: serializeObject_RegExp split: sum.splits)
next
  case (Map es)
  with vals have "list_all (in_heap h) (concat (map (\<lambda>(k, x). [k, x]) es))"
    by (simp add: values_of_def)
  from not_stuck_Entries [OF IH this u] Map known show ?thesis
    by (cases "fst (serializeEntries n h es c)"; cases "lookup_method v ''entries''")
       (simp_all add: serializeObject_Map calls_known_def)
next
  case (Set xs)
  with vals have "list_all (in_heap h) xs" by (simp add: values_of_def)
  from not_stuck_Items [OF IH this u] Set show ?thesis
    by (cases "fst (serializeItems n h xs c)") (simp_all add: serializeObject_Set)
next
  case (GuardThrows e) then show ?thesis by (simp add: serializeObject_guard_throws)
next
  case TextRange
  with reads_not_Stuck [of v "[''start'', ''length'']"] show ?thesis
    by (cases "reads v [''start'', ''length'']") (simp_all add: serializeObject_TextRange)
next
  case (Collection xs)
  with vals have "list_all (in_heap h) xs" by (simp add: values_of_def)
  from not_stuck_Items [OF IH this u] Collection known show ?thesis
    by (cases "fst (serializeItems n h xs c)"; cases "collection_calls v xs")
       (simp_all add: serializeObject_TextRangeCollection calls_known_def)
next
  case Diagnostic
  show ?thesis
  proof (cases "reads v [''category'', ''message'']")
    case (Returns fs)
    show ?thesis
    proof (cases "read v ''range''")
      case (Inl e)
      with Returns Diagnostic show ?thesis by (simp add: serializeObject_Diagnostic)
    next
      case (Inr r)
      with vals have "in_heap h r" by (rule read_in_heap)
      from IH [OF this u] Returns Inr Diagnostic show ?thesis
        by (cases "fst (serializeValue n h r c)") (simp_all add: serializeObject_Diagnostic)
    qed
  next
    case (Throws e)
    with Diagnostic show ?thesis by (simp add: serializeObject_Diagnostic)
  next
    case Stuck
    with reads_not_Stuck show ?thesis by blast
  qed
next
  case (Array xs)
  with vals have "list_all (in_heap h) xs" by (simp add: values_of_def)
  from not_stuck_Items [OF IH this u] Array known show ?thesis
    by (cases "fst (serializeItems n h xs c)"; cases "lookup_method v ''map''")
       (simp_all add: serializeObject_Array calls_known_def)
next
  case Record
  from not_stuck_Props [OF IH vals u, of "for_in_keys v" "[]"] Record show ?thesis
    by (cases "fst (serializeProps n h v (for_in_keys v) [] c)")
       (simp_all add: serializeObject_record)
qed

lemma walk_never_stuck:
  assumes "heap_closed h" "list_all calls_known h"
  shows "in_heap h v \<Longrightarrow> unseen h c < n \<Longrightarrow> fst (serializeValue n h v c) \<noteq> Stuck"
proof (induction n arbitrary: v c)
  case (Suc n)
  show ?case
  proof (cases v)
    case (VRef a)
    with Suc.prems have a: "a < length h" by simp
    show ?thesis
    proof (cases "seen c a")
      case (Some i)
      then show ?thesis unfolding VRef serializeValue_VRef by simp
    next
      case None
      from unseen_mark [OF None a] Suc.prems have u: "unseen h (mark a c) < n" by simp
      from a assms have "list_all (in_heap h) (values_of (h ! a))" "calls_known (h ! a)"
        by (simp_all add: heap_closed_def list_all_length)
      from not_stuck_Object [OF Suc.IH this(1) u this(2)] None a show ?thesis
        unfolding VRef serializeValue_VRef by simp
    qed
  qed simp_all
qed simp

lemma budget_of_serialize_suffices:
  assumes "heap_closed h" "list_all calls_known h" "in_heap h v"
  shows "fst (serializeValue (Suc (length h)) h v \<lparr>seen = Map.empty, refs = [], refCount = 0\<rparr>) \<noteq> Stuck"
proof -
  have "unseen h \<lparr>seen = Map.empty, refs = [], refCount = 0\<rparr> < Suc (length h)"
    by (simp add: unseen_def)
  from walk_never_stuck [OF assms this] show ?thesis .
qed

subsection \<open>The decoder resolves no reference\<close>

lemma refs_has_empty [simp]: "\<not> refs_has \<lparr>resolved = Map.empty\<rparr> refId"
  by (cases refId) simp_all

lemma decoder_resolves_nothing:
  "deserializeValue H j \<lparr>resolved = Map.empty\<rparr> rs = decode_circular_as_null H j"
  "deserializeItems H xs \<lparr>resolved = Map.empty\<rparr> rs = decode_circular_as_null_items H xs"
  "deserializeEntries H es \<lparr>resolved = Map.empty\<rparr> rs = decode_circular_as_null_entries H es"
  "deserializeProps H kvs acc \<lparr>resolved = Map.empty\<rparr> rs = decode_circular_as_null_props H kvs acc"
  apply (induction H j and H xs and H es and H kvs acc
    rule: decode_circular_as_null_decode_circular_as_null_items_decode_circular_as_null_entries_decode_circular_as_null_props.induct)
  subgoal by simp
  subgoal by simp
  subgoal by simp
  subgoal by simp
  subgoal by simp
  subgoal premises IH for H xs
    using IH(1) by simp
  subgoal premises IH for H kvs
  proof -
    have none: "True" by simp
    show ?thesis
    proof (cases "map_of kvs ''__Circular__''")
      case (Some x)
      with none show ?thesis by simp
    next
      case None
      note none = none None
      show ?thesis
      proof (cases "map_of kvs ''__Date__''")
        case (Some x)
        with none show ?thesis by simp
      next
        case None
        note none = none None
        show ?thesis
        proof (cases "map_of kvs ''__RegExp__''")
          case (Some x)
          with none show ?thesis by simp
        next
          case None
          note none = none None
          show ?thesis
          proof (cases "map_of kvs ''__Map__''")
            case (Some x)
            with none IH(6) show ?thesis by (simp split: json.split)
          next
            case None
            note none = none None
            show ?thesis
            proof (cases "map_of kvs ''__Set__''")
              case (Some x)
              with none IH(5) show ?thesis by (simp split: json.split)
            next
              case None
              note none = none None
              show ?thesis
              proof (cases "map_of kvs ''__TextRange__''")
                case (Some x)
                with none show ?thesis by simp
              next
                case None
                note none = none None
                show ?thesis
                proof (cases "map_of kvs ''__TextRangeCollection__''")
                  case (Some x)
                  with none IH(4) show ?thesis by simp
                next
                  case None
                  note none = none None
                  show ?thesis
                  proof (cases "map_of kvs ''__ParseNode__''")
                    case (Some x)
                    with none show ?thesis by simp
                  next
                    case None
                    note none = none None
                    show ?thesis
                    proof (cases "map_of kvs ''__Diagnostic__''")
                      case (Some x)
                      with none IH(3) show ?thesis by simp
                    next
                      case None
                      note none = none None
                      show ?thesis
                      using none IH(2) by simp
                    qed
                  qed
                qed
              qed
            qed
          qed
        qed
      qed
    qed
  qed
  subgoal by simp
  subgoal by (simp split: sum.splits)
  subgoal by simp
  subgoal by (simp split: sum.splits prod.splits)
  subgoal by simp
  subgoal by (simp split: sum.splits)
  done

lemma deserializeValue_JArr:
  "deserializeValue H (Some (JArr xs)) c rs =
    (case deserializeItems H xs c rs of Inl e \<Rightarrow> Inl e | Inr items \<Rightarrow> Inr (DArray items))"
  by simp

lemma deserializeItems_nth:
  "deserializeItems H xs c rs = Inr ds \<Longrightarrow>
     length ds = length xs \<and> (\<forall>i < length xs. deserializeValue H (Some (xs ! i)) c rs = Inr (ds ! i))"
proof (induction xs arbitrary: ds)
  case Nil then show ?case by simp
next
  case (Cons x xs)
  from Cons.prems obtain d ds' where d: "deserializeValue H (Some x) c rs = Inr d"
    and r: "deserializeItems H xs c rs = Inr ds'" and ds: "ds = d # ds'"
    by (auto split: sum.splits)
  from Cons.IH [OF r] d ds show ?case
    by (auto simp: nth_Cons split: nat.splits)
qed

lemma map_of_set_prop_same: "k \<noteq> ''__proto__'' \<Longrightarrow> map_of (set_prop acc k d) k = Some d"
  by (induction acc k d rule: set_prop.induct) auto

lemma map_of_set_prop_other: "k' \<noteq> k \<Longrightarrow> map_of (set_prop acc k' d) k = map_of acc k"
  by (induction acc k' d rule: set_prop.induct) auto

lemma deserializeProps_other:
  "deserializeProps H kvs acc c rs = Inr ps \<Longrightarrow> k \<notin> fst ` set kvs \<Longrightarrow> map_of ps k = map_of acc k"
proof (induction kvs arbitrary: acc)
  case Nil then show ?case by simp
next
  case (Cons kv kvs)
  obtain k' v' where kv: "kv = (k', v')" by force
  from Cons.prems(1) kv obtain d where d: "deserializeValue H (Some v') c rs = Inr d"
    and r: "deserializeProps H kvs (set_prop acc k' d) c rs = Inr ps"
    by (auto split: sum.splits)
  from Cons.prems(2) kv have "k' \<noteq> k" "k \<notin> fst ` set kvs" by auto
  with Cons.IH [OF r] show ?case by (simp add: map_of_set_prop_other)
qed

lemma deserializeProps_key:
  "deserializeProps H kvs acc c rs = Inr ps \<Longrightarrow> distinct (map fst kvs) \<Longrightarrow> (k, v) \<in> set kvs \<Longrightarrow>
   k \<noteq> ''__proto__'' \<Longrightarrow> \<exists>d. deserializeValue H (Some v) c rs = Inr d \<and> map_of ps k = Some d"
proof (induction kvs arbitrary: acc)
  case Nil then show ?case by simp
next
  case (Cons kv kvs)
  obtain k' v' where kv: "kv = (k', v')" by force
  from Cons.prems(1) kv obtain d where d: "deserializeValue H (Some v') c rs = Inr d"
    and r: "deserializeProps H kvs (set_prop acc k' d) c rs = Inr ps"
    by (auto split: sum.splits)
  show ?case
  proof (cases "(k, v) = (k', v')")
    case True
    with Cons.prems(2) kv have "k \<notin> fst ` set kvs" by auto
    from deserializeProps_other [OF r this] True d Cons.prems(4) show ?thesis
      by (auto simp: map_of_set_prop_same)
  next
    case False
    with Cons.prems(3) kv have "(k, v) \<in> set kvs" by auto
    moreover from Cons.prems(2) have "distinct (map fst kvs)" by simp
    ultimately show ?thesis using Cons.IH [OF r] Cons.prems(4) by blast
  qed
qed

section \<open>The structural codec: round trip\<close>

text \<open>
  C1 as stated does not hold. The record \<^verbatim>\<open>{a: shared, b: shared}\<close> is acyclic and built
  from records and numbers only, and it is structurally equal to the tree with two equal
  records below \<^verbatim>\<open>a\<close> and \<^verbatim>\<open>b\<close>. The encoder writes the second visit of \<^verbatim>\<open>shared\<close>
  as a circular marker, and the decoder turns the marker into null. A diagnostic with a
  fourth field is acyclic and built from records, numbers and strings; the encoder keeps
  \<^verbatim>\<open>category\<close>, \<^verbatim>\<open>message\<close> and \<^verbatim>\<open>range\<close> only, so the decoded value lacks the field.
\<close>

theorem roundtrip_fails_on_shared_reference:
  "represents shared_record (VRef 1) shared_record_tree
   \<and> serialize shared_record (VRef 1) =
       Returns (Text (JObj [(''version'', JNum 1),
         (''data'', JObj [(''a'', JObj [(''x'', JNum 1)]),
                          (''b'', JObj [(''__Circular__'', JNum 1)])]),
         (''refs'', JArr [])]))
   \<and> deserialize any_regexp (Text (JObj [(''version'', JNum 1),
         (''data'', JObj [(''a'', JObj [(''x'', JNum 1)]),
                          (''b'', JObj [(''__Circular__'', JNum 1)])]),
         (''refs'', JArr [])]))
       = Inr (DObject [(''a'', DObject [(''x'', DNum 1)]), (''b'', DNull)])
   \<and> DObject [(''a'', DObject [(''x'', DNum 1)]), (''b'', DNull)] \<noteq> shared_record_tree
   \<and> represents diagnostic (VRef 3)
        (DObject [(''category'', DNum 0), (''message'', DStr ''Import cycle''),
                  (''range'', diagnostic_range), (''_rule'', DStr ''reportImportCycles'')])
   \<and> serialize diagnostic (VRef 3) =
       Returns (Text (JObj [(''version'', JNum 1),
         (''data'', JObj [(''__Diagnostic__'',
            JObj [(''category'', JNum 0), (''message'', JStr ''Import cycle''),
                  (''range'', JObj [(''start'', JObj [(''line'', JNum 1), (''character'', JNum 2)]),
                                    (''end'', JObj [(''line'', JNum 1), (''character'', JNum 7)])])])]),
         (''refs'', JArr [])]))
   \<and> deserialize any_regexp (Text (JObj [(''version'', JNum 1),
         (''data'', JObj [(''__Diagnostic__'',
            JObj [(''category'', JNum 0), (''message'', JStr ''Import cycle''),
                  (''range'', JObj [(''start'', JObj [(''line'', JNum 1), (''character'', JNum 2)]),
                                    (''end'', JObj [(''line'', JNum 1), (''character'', JNum 7)])])])]),
         (''refs'', JArr [])]))
       = Inr (DObject [(''category'', DNum 0), (''message'', DStr ''Import cycle''),
                       (''range'', diagnostic_range)])"
  by code_simp

text \<open>
  C1, amended. For every tree-shaped value (no object reached along two paths) that is
  structurally equal to a supported tree \<open>d\<close>, encoding returns a document and decoding
  that document yields \<open>d\<close>: the same kinds, the same scalar contents, the same order of
  elements, of map entries and of keys.
\<close>

theorem roundtrip_of_supported_trees:
  assumes "supported H d" "represents h v d" "distinct (nodes h v d)"
  shows "\<exists>t. serialize h v = Returns t \<and> deserialize H t = Inr d"
proof -
  let ?c0 = "\<lparr>seen = Map.empty, refs = [], refCount = 0\<rparr>"
  have dj: "set (nodes h v d) \<inter> dom (seen ?c0) = {}" by simp
  from nodes_in_heap [OF assms dj] assms(3) have "length (nodes h v d) \<le> length h"
    by (intro distinct_bounded_length)
  then have "length (nodes h v d) < Suc (length h)" by simp
  from encode_supported(1) [OF assms dj this]
  have "fst (serializeValue (Suc (length h)) h v ?c0) = Returns (enc d)"
    by (simp add: visits_def del: serializeValue.simps)
  from serialize_Returns [OF this pure_enc(1) [OF assms(1)]]
  have "serialize h v = Returns (Text (document (enc d)))" .
  with deserialize_document [OF assms(1)] show ?thesis by simp
qed

theorem roundtrip_of_supported_trees_witness:
  "supported any_regexp cache_entry_tree
   \<and> represents cache_entry (VRef 8) cache_entry_tree
   \<and> distinct (nodes cache_entry (VRef 8) cache_entry_tree)
   \<and> (\<exists>t. serialize cache_entry (VRef 8) = Returns t
          \<and> deserialize any_regexp t = Inr cache_entry_tree)"
proof -
  have 1: "supported any_regexp cache_entry_tree" by code_simp
  have 2: "represents cache_entry (VRef 8) cache_entry_tree" by code_simp
  have 3: "distinct (nodes cache_entry (VRef 8) cache_entry_tree)" by code_simp
  from roundtrip_of_supported_trees [OF 1 2 3] 1 2 3 show ?thesis by blast
qed

section \<open>The structural codec: parse nodes and text ranges\<close>

text \<open>
  C2 does not hold of the code. A value with \<^verbatim>\<open>nodeType\<close>, \<^verbatim>\<open>id\<close> and numeric
  \<^verbatim>\<open>start\<close> and \<^verbatim>\<open>length\<close> passes \<open>isParseNode\<close>, but \<open>isTextRange\<close> is asked first and
  holds of it too: the document has the tag \<^verbatim>\<open>__TextRange__\<close> with \<^verbatim>\<open>start\<close> and
  \<^verbatim>\<open>length\<close> only, and \<^verbatim>\<open>nodeType\<close> and \<^verbatim>\<open>id\<close> are lost.
\<close>

theorem parse_node_is_encoded_as_text_range:
  "isParseNode (parse_node ! 0) = Inr True
   \<and> serialize parse_node (VRef 0) =
     Returns (Text (JObj [(''version'', JNum 1),
       (''data'', JObj [(''__TextRange__'', JObj [(''start'', JNum 0), (''length'', JNum 3)])]),
       (''refs'', JArr [])]))"
  by code_simp

text \<open>
  C10 as stated does not hold of every object with numeric \<^verbatim>\<open>start\<close> and \<^verbatim>\<open>length\<close>:
  the second visit of such an object is written as a circular marker, and a map that has
  the two properties is written as a map.
\<close>

theorem text_range_claim_fails_on_revisit_and_on_map:
  "read (ranges ! 0) ''start'' = Inr (VNum 0) \<and> read (ranges ! 0) ''length'' = Inr (VNum 5)
   \<and> serialize ranges (VRef 1) =
       Returns (Text (JObj [(''version'', JNum 1),
         (''data'', JArr [JObj [(''__TextRange__'', JObj [(''start'', JNum 0), (''length'', JNum 5)])],
                          JObj [(''__Circular__'', JNum 1)]]),
         (''refs'', JArr [])]))
   \<and> read (ranges ! 2) ''start'' = Inr (VNum 1) \<and> read (ranges ! 2) ''length'' = Inr (VNum 2)
   \<and> serialize ranges (VRef 2) =
       Returns (Text (JObj [(''version'', JNum 1),
         (''data'', JObj [(''__Map__'', JArr [])]),
         (''refs'', JArr [])]))"
  by code_simp

text \<open>
  C10, amended. Every object that is not a timestamp, pattern, map or set and whose
  \<^verbatim>\<open>start\<close> and \<^verbatim>\<open>length\<close> are both numbers is encoded, on its first visit, as a
  \<^verbatim>\<open>__TextRange__\<close> wrapper that holds \<^verbatim>\<open>start\<close> and \<^verbatim>\<open>length\<close> and nothing else,
  whatever other fields it has. Whenever the parse-node guard holds the text-range guard,
  which is asked first, holds as well: the \<^verbatim>\<open>__ParseNode__\<close> branch is never taken.
\<close>

theorem text_range_guard_precedes_parse_node_guard:
  "(shape_tested v \<and> read v ''start'' = Inr (VNum s) \<and> read v ''length'' = Inr (VNum l) \<longrightarrow>
      serializeObject n h v c =
        (Returns (TObj [(''__TextRange__'',
           TObj [(''start'', Raw (VNum s)), (''length'', Raw (VNum l))])]), c))
   \<and> (a < length h \<and> seen c a = None \<and> shape_tested (h ! a)
       \<and> read (h ! a) ''start'' = Inr (VNum s) \<and> read (h ! a) ''length'' = Inr (VNum l) \<longrightarrow>
      fst (serializeValue (Suc n) h (VRef a) c) =
        Returns (TObj [(''__TextRange__'',
           TObj [(''start'', Raw (VNum s)), (''length'', Raw (VNum l))])]))
   \<and> (isParseNode v = Inr True \<longrightarrow> isTextRange v = Inr True)
   \<and> (isTextRange v = Inr False \<longrightarrow> isParseNode v = Inr False)"
proof -
  have obj: "serializeObject n h v c =
        (Returns (TObj [(''__TextRange__'',
           TObj [(''start'', Raw (VNum s)), (''length'', Raw (VNum l))])]), c)"
    if "shape_tested v" "read v ''start'' = Inr (VNum s)" "read v ''length'' = Inr (VNum l)"
    for v c n
  proof -
    from that(2,3) have "isTextRange v = Inr True" by (simp add: isTextRange_def)
    from serializeObject_TextRange [OF that(1) this] that(2,3) show ?thesis by simp
  qed
  have "fst (serializeValue (Suc n) h (VRef a) c) =
        Returns (TObj [(''__TextRange__'',
           TObj [(''start'', Raw (VNum s)), (''length'', Raw (VNum l))])])"
    if "a < length h" "seen c a = None" "shape_tested (h ! a)"
      "read (h ! a) ''start'' = Inr (VNum s)" "read (h ! a) ''length'' = Inr (VNum l)"
    using that(1,2) obj [OF that(3,4,5)] unfolding serializeValue_VRef by simp
  with obj isParseNode_implies_isTextRange isParseNode_after_isTextRange
  show ?thesis by blast
qed

theorem text_range_guard_precedes_parse_node_guard_witness:
  "shape_tested (parse_node ! 0) \<and> read (parse_node ! 0) ''start'' = Inr (VNum 0)
   \<and> read (parse_node ! 0) ''length'' = Inr (VNum 3) \<and> isParseNode (parse_node ! 0) = Inr True
   \<and> isTextRange (parse_node ! 0) = Inr True
   \<and> fst (serializeValue (Suc 0) parse_node (VRef 0) \<lparr>seen = Map.empty, refs = [], refCount = 0\<rparr>) =
        Returns (TObj [(''__TextRange__'',
           TObj [(''start'', Raw (VNum 0)), (''length'', Raw (VNum 3))])])"
proof -
  have 1: "shape_tested (parse_node ! 0)" by code_simp
  have 2: "read (parse_node ! 0) ''start'' = Inr (VNum 0)" by code_simp
  have 3: "read (parse_node ! 0) ''length'' = Inr (VNum 3)" by code_simp
  have 4: "isParseNode (parse_node ! 0) = Inr True" by code_simp
  have 5: "0 < length parse_node" by code_simp
  from text_range_guard_precedes_parse_node_guard
    [of "parse_node ! 0" 0 3 0 parse_node "\<lparr>seen = Map.empty, refs = [], refCount = 0\<rparr>" 0]
    1 2 3 4 5
  show ?thesis by (simp del: serializeValue.simps)
qed

section \<open>The structural codec: decoding\<close>

text \<open>
  C3. During decoding, every node tagged \<^verbatim>\<open>__Circular__\<close> evaluates to null. The map of
  resolved references is created empty by \<open>deserialize\<close> and no call asks it for an
  identity it holds: on every parsed value, at every depth, the decoder computes what
  \<open>decode_circular_as_null\<close> computes, the decoder that has no such map. In particular a
  marker decodes to null as the whole payload, as an element of a sequence at any index, and
  as the value of a key of a plain record (one without a reserved key, with pairwise
  different keys), whatever the identity in the marker is.
\<close>

theorem circular_marker_decodes_to_null:
  "(\<forall>refId. \<not> refs_has \<lparr>resolved = Map.empty\<rparr> refId)
   \<and> deserializeValue H j \<lparr>resolved = Map.empty\<rparr> rs = decode_circular_as_null H j
   \<and> (get doc ''version'' = Some (JNum 1) \<longrightarrow>
        deserialize H (Text doc) =
          (case decode_circular_as_null H (get doc ''data'') of
             Inl e \<Rightarrow> Inl (Error (''Failed to deserialize cache: '' @ error_to_string e))
           | Inr d \<Rightarrow> Inr d))
   \<and> (get v ''__Circular__'' = Some refId \<longrightarrow>
        deserializeValue H (Some v) \<lparr>resolved = Map.empty\<rparr> rs = Inr DNull
        \<and> (get doc ''version'' = Some (JNum 1) \<and> get doc ''data'' = Some v \<longrightarrow>
             deserialize H (Text doc) = Inr DNull)
        \<and> (\<forall>xs i d. i < length xs \<and> xs ! i = v
               \<and> deserializeValue H (Some (JArr xs)) \<lparr>resolved = Map.empty\<rparr> rs = Inr d \<longrightarrow>
             (\<exists>ds. d = DArray ds \<and> length ds = length xs \<and> ds ! i = DNull))
        \<and> (\<forall>kvs k d. (k, v) \<in> set kvs \<and> distinct (map fst kvs) \<and> k \<noteq> ''__proto__''
               \<and> (\<forall>t \<in> set TYPE_MARKERS. map_of kvs t = None)
               \<and> deserializeValue H (Some (JObj kvs)) \<lparr>resolved = Map.empty\<rparr> rs = Inr d \<longrightarrow>
             (\<exists>ps. d = DObject ps \<and> map_of ps k = Some DNull)))"
proof -
  let ?c = "\<lparr>resolved = Map.empty\<rparr>"
  have all: "deserializeValue H j ?c rs = decode_circular_as_null H j" for j rs
    by (rule decoder_resolves_nothing)
  have whole: "deserialize H (Text doc) =
      (case decode_circular_as_null H (get doc ''data'') of
         Inl e \<Rightarrow> Inl (Error (''Failed to deserialize cache: '' @ error_to_string e))
       | Inr d \<Rightarrow> Inr d)"
    if "get doc ''version'' = Some (JNum 1)"
  proof -
    from that have "doc \<noteq> JNull" by auto
    with that show ?thesis by (simp add: deserialize_def all)
  qed
  have marker: "deserializeValue H (Some v) ?c rs = Inr DNull
      \<and> (get doc ''version'' = Some (JNum 1) \<and> get doc ''data'' = Some v \<longrightarrow>
           deserialize H (Text doc) = Inr DNull)
      \<and> (\<forall>xs i d. i < length xs \<and> xs ! i = v
             \<and> deserializeValue H (Some (JArr xs)) ?c rs = Inr d \<longrightarrow>
           (\<exists>ds. d = DArray ds \<and> length ds = length xs \<and> ds ! i = DNull))
      \<and> (\<forall>kvs k d. (k, v) \<in> set kvs \<and> distinct (map fst kvs) \<and> k \<noteq> ''__proto__''
             \<and> (\<forall>t \<in> set TYPE_MARKERS. map_of kvs t = None)
             \<and> deserializeValue H (Some (JObj kvs)) ?c rs = Inr d \<longrightarrow>
           (\<exists>ps. d = DObject ps \<and> map_of ps k = Some DNull))"
    if m: "get v ''__Circular__'' = Some refId"
  proof -
    from m obtain kvs where v: "v = JObj kvs"
      by (cases v) (auto split: if_splits)
    have node: "deserializeValue H (Some v) ?c rs = Inr DNull" for rs
      using m by (simp add: v)
    have root: "deserialize H (Text doc) = Inr DNull"
      if "get doc ''version'' = Some (JNum 1)" "get doc ''data'' = Some v"
    proof -
      from node [of rs] all [of "Some v" rs] have "decode_circular_as_null H (Some v) = Inr DNull"
        by simp
      with whole [OF that(1)] that(2) show ?thesis by simp
    qed
    have arr: "\<exists>ds. d = DArray ds \<and> length ds = length xs \<and> ds ! i = DNull"
      if "i < length xs" "xs ! i = v" "deserializeValue H (Some (JArr xs)) ?c rs = Inr d"
      for xs i d
    proof -
      from that(3) obtain ds where ds: "deserializeItems H xs ?c rs = Inr ds" "d = DArray ds"
        by (auto simp: deserializeValue_JArr split: sum.splits)
      from deserializeItems_nth [OF ds(1)] that(1,2) node [of rs] ds(2) show ?thesis by auto
    qed
    have rec: "\<exists>ps. d = DObject ps \<and> map_of ps k = Some DNull"
      if "(k, v) \<in> set kvs" "distinct (map fst kvs)" "k \<noteq> ''__proto__''"
        "\<forall>t \<in> set TYPE_MARKERS. map_of kvs t = None"
        "deserializeValue H (Some (JObj kvs)) ?c rs = Inr d"
      for kvs k d
    proof -
      from that(4) have "\<And>t. t \<in> set TYPE_MARKERS \<Longrightarrow> map_of kvs t = None" by blast
      from deserialize_record [OF this, of H ?c rs] that(5)
      obtain ps where ps: "deserializeProps H kvs [] ?c rs = Inr ps" "d = DObject ps"
        by (auto split: sum.splits)
      from deserializeProps_key [OF ps(1) that(2,1,3)] node [of rs] ps(2) show ?thesis by auto
    qed
    from node root arr rec show ?thesis by blast
  qed
  have never: "\<forall>refId. \<not> refs_has ?c refId" by simp
  from never all [of j rs] whole marker show ?thesis by blast
qed

theorem circular_marker_decodes_to_null_witness:
  "get (JObj [(''__Circular__'', JNum 0)]) ''__Circular__'' = Some (JNum 0)
   \<and> deserializeValue (\<lambda>s f. True) (Some (JObj [(''__Circular__'', JNum 0)]))
        \<lparr>resolved = Map.empty\<rparr> (Some (JArr [])) = Inr DNull
   \<and> deserialize (\<lambda>s f. True)
        (Text (JObj [(''version'', JNum 1), (''data'', JObj [(''__Circular__'', JNum 0)]),
                     (''refs'', JArr [])])) = Inr DNull
   \<and> (\<exists>ds. deserializeValue (\<lambda>s f. True)
          (Some (JArr [JNum 7, JObj [(''__Circular__'', JNum 0)]]))
          \<lparr>resolved = Map.empty\<rparr> (Some (JArr [])) = Inr (DArray ds)
        \<and> length ds = 2 \<and> ds ! 1 = DNull)
   \<and> (\<exists>ps. deserializeValue (\<lambda>s f. True)
          (Some (JObj [(''a'', JObj [(''x'', JNum 1)]), (''b'', JObj [(''__Circular__'', JNum 0)])]))
          \<lparr>resolved = Map.empty\<rparr> (Some (JArr [])) = Inr (DObject ps)
        \<and> map_of ps ''b'' = Some DNull)
   \<and> deserializeValue (\<lambda>s f. True)
        (Some (JArr [JObj [(''__Map__'',
           JArr [JArr [JStr ''k'', JObj [(''self'', JObj [(''__Circular__'', JNum 0)])]]])]]))
        \<lparr>resolved = Map.empty\<rparr> (Some (JArr []))
       = Inr (DArray [DMap [(DStr ''k'', DObject [(''self'', DNull)])]])"
proof -
  let ?H = "\<lambda>s f. True"
  let ?c = "\<lparr>resolved = Map.empty\<rparr>"
  let ?rs = "Some (JArr [])"
  let ?m = "JObj [(''__Circular__'', JNum 0)]"
  let ?doc = "JObj [(''version'', JNum 1), (''data'', ?m), (''refs'', JArr [])]"
  let ?xs = "[JNum 7, ?m]"
  let ?kvs = "[(''a'', JObj [(''x'', JNum 1)]), (''b'', ?m)]"
  have h: "get ?m ''__Circular__'' = Some (JNum 0)" by simp
  have d: "get ?doc ''version'' = Some (JNum 1) \<and> get ?doc ''data'' = Some ?m" by simp
  from circular_marker_decodes_to_null [of ?H "Some ?m" ?rs ?doc ?m "JNum 0"] h
  have node: "deserializeValue ?H (Some ?m) ?c ?rs = Inr DNull"
    and root: "get ?doc ''version'' = Some (JNum 1) \<and> get ?doc ''data'' = Some ?m \<longrightarrow>
      deserialize ?H (Text ?doc) = Inr DNull"
    and arr: "\<forall>xs i d. i < length xs \<and> xs ! i = ?m
        \<and> deserializeValue ?H (Some (JArr xs)) ?c ?rs = Inr d \<longrightarrow>
      (\<exists>ds. d = DArray ds \<and> length ds = length xs \<and> ds ! i = DNull)"
    and rec: "\<forall>kvs k d. (k, ?m) \<in> set kvs \<and> distinct (map fst kvs) \<and> k \<noteq> ''__proto__''
        \<and> (\<forall>t \<in> set TYPE_MARKERS. map_of kvs t = None)
        \<and> deserializeValue ?H (Some (JObj kvs)) ?c ?rs = Inr d \<longrightarrow>
      (\<exists>ps. d = DObject ps \<and> map_of ps k = Some DNull)"
    by blast+
  from root d have 1: "deserialize ?H (Text ?doc) = Inr DNull" by blast
  have a1: "(1::nat) < length ?xs \<and> ?xs ! 1 = ?m" by simp
  have a2: "deserializeValue ?H (Some (JArr ?xs)) ?c ?rs = Inr (DArray [DNum 7, DNull])"
    by code_simp
  from arr [rule_format, of 1 ?xs "DArray [DNum 7, DNull]"] a1 a2
  obtain ds where "DArray [DNum 7, DNull] = DArray ds" "length ds = length ?xs" "ds ! 1 = DNull"
    by blast
  with a2 have 2: "\<exists>ds. deserializeValue ?H (Some (JArr ?xs)) ?c ?rs = Inr (DArray ds)
      \<and> length ds = 2 \<and> ds ! 1 = DNull"
    by simp
  have r1: "(''b'', ?m) \<in> set ?kvs \<and> distinct (map fst ?kvs) \<and> ''b'' \<noteq> ''__proto__''
      \<and> (\<forall>t \<in> set TYPE_MARKERS. map_of ?kvs t = None)"
    by (simp add: TYPE_MARKERS_def)
  have r2: "deserializeValue ?H (Some (JObj ?kvs)) ?c ?rs
      = Inr (DObject [(''a'', DObject [(''x'', DNum 1)]), (''b'', DNull)])"
    by code_simp
  from rec [rule_format, of "''b''" ?kvs "DObject [(''a'', DObject [(''x'', DNum 1)]), (''b'', DNull)]"]
    r1 r2
  obtain ps where "DObject [(''a'', DObject [(''x'', DNum 1)]), (''b'', DNull)] = DObject ps"
    "map_of ps ''b'' = Some DNull"
    by blast
  with r2 have 3: "\<exists>ps. deserializeValue ?H (Some (JObj ?kvs)) ?c ?rs = Inr (DObject ps)
      \<and> map_of ps ''b'' = Some DNull"
    by simp
  have 4: "deserializeValue ?H
        (Some (JArr [JObj [(''__Map__'',
           JArr [JArr [JStr ''k'', JObj [(''self'', JObj [(''__Circular__'', JNum 0)])]]])]]))
        ?c ?rs
       = Inr (DArray [DMap [(DStr ''k'', DObject [(''self'', DNull)])]])"
    by code_simp
  from h node 1 2 3 4 show ?thesis by blast
qed

text \<open>
  C5. Decoding fails with an error, never with a default value, when the text is not
  well formed and when the version of the document is absent or is not the number 1. The
  error is an \<^verbatim>\<open>Error\<close> whose message is \<^verbatim>\<open>Failed to deserialize cache: \<close> followed by the
  cause: the parser's \<^verbatim>\<open>SyntaxError\<close>, or \<^verbatim>\<open>Error: Unsupported cache version\<close>. (A document
  that is the value \<^verbatim>\<open>null\<close> has no version either; reading it raises a \<^verbatim>\<open>TypeError\<close>,
  wrapped the same way.)
\<close>

theorem deserialize_fails_on_malformed_text_and_on_version:
  "(JSON_parse json = Inl e \<longrightarrow>
      deserialize H json = Inl (Error (''Failed to deserialize cache: '' @ error_to_string e)))
   \<and> (JSON_parse json = Inr parsed \<and> get parsed ''version'' \<noteq> Some (JNum 1) \<longrightarrow>
      (\<exists>cause. deserialize H json = Inl (Error (''Failed to deserialize cache: '' @ cause))))
   \<and> (JSON_parse json = Inr parsed \<and> parsed \<noteq> JNull \<and> get parsed ''version'' \<noteq> Some (JNum 1) \<longrightarrow>
      deserialize H json =
        Inl (Error ''Failed to deserialize cache: Error: Unsupported cache version''))"
  by (cases "parsed = JNull") (simp_all add: deserialize_def)

theorem deserialize_fails_on_malformed_text_and_on_version_witness:
  "deserialize (\<lambda>s f. True) (NotJSON ''Unexpected token o in JSON at position 1'')
     = Inl (Error (''Failed to deserialize cache: SyntaxError: Unexpected token o in JSON at position 1''))
   \<and> deserialize (\<lambda>s f. True)
        (Text (JObj [(''version'', JNum 2), (''data'', JNull), (''refs'', JArr [])]))
     = Inl (Error ''Failed to deserialize cache: Error: Unsupported cache version'')
   \<and> deserialize (\<lambda>s f. True) (Text (JObj [(''data'', JNull), (''refs'', JArr [])]))
     = Inl (Error ''Failed to deserialize cache: Error: Unsupported cache version'')"
  using deserialize_fails_on_malformed_text_and_on_version
      [of "NotJSON ''Unexpected token o in JSON at position 1''"
          "SyntaxError ''Unexpected token o in JSON at position 1''" "\<lambda>s f. True" JNull]
    deserialize_fails_on_malformed_text_and_on_version
      [of "Text (JObj [(''version'', JNum 2), (''data'', JNull), (''refs'', JArr [])])"
          undefined "\<lambda>s f. True" "JObj [(''version'', JNum 2), (''data'', JNull), (''refs'', JArr [])]"]
    deserialize_fails_on_malformed_text_and_on_version
      [of "Text (JObj [(''data'', JNull), (''refs'', JArr [])])"
          undefined "\<lambda>s f. True" "JObj [(''data'', JNull), (''refs'', JArr [])]"]
  by simp

section \<open>The structural codec: identities and cycles\<close>



text \<open>
  C7. Encoding terminates on the self-referential record: \<open>serialize\<close> returns a document,
  in which the record has one key whose value is the circular marker with the identity 0
  of the record itself. The second visit returns the marker without entering the record
  again, so the walk needs two nested calls, whatever budget above that it is given.
\<close>

theorem serialize_self_reference_terminates:
  "serialize a_self (VRef 0) =
     Returns (Text (JObj [(''version'', JNum 1),
       (''data'', JObj [(''self'', JObj [(''__Circular__'', JNum 0)])]),
       (''refs'', JArr [])]))
   \<and> fst (serializeValue (Suc (Suc n)) a_self (VRef 0) \<lparr>seen = Map.empty, refs = [], refCount = 0\<rparr>)
       = Returns (TObj [(''self'', TObj [(''__Circular__'', Raw (VNum 0))])])"
proof
  show "serialize a_self (VRef 0) =
     Returns (Text (JObj [(''version'', JNum 1),
       (''data'', JObj [(''self'', JObj [(''__Circular__'', JNum 0)])]),
       (''refs'', JArr [])]))"
    by code_simp
  show "fst (serializeValue (Suc (Suc n)) a_self (VRef 0) \<lparr>seen = Map.empty, refs = [], refCount = 0\<rparr>)
       = Returns (TObj [(''self'', TObj [(''__Circular__'', Raw (VNum 0))])])"
    by (simp add: a_self_def serializeObject.simps isTextRange_def isParseNode_def
        isDiagnostic_def read_def find_prop_def has_property_def is_array_def for_in_keys_def
        hasOwnProperty_def)
qed

theorem serialize_self_reference_terminates_witness:
  "\<exists>t. serialize a_self (VRef 0) = Returns t"
  using serialize_self_reference_terminates [of 0] by simp

section \<open>The structural codec: records and failures\<close>




section \<open>The structural codec: diagnostics\<close>




section \<open>The flat codec\<close>

text \<open>
  C9 does not hold of the code for timestamps. \<^verbatim>\<open>JSON.stringify\<close> calls the \<^verbatim>\<open>toJSON\<close>
  method of a \<^verbatim>\<open>Date\<close> before it calls the replacer, so the replacer is given the ISO
  string and its test \<^verbatim>\<open>value instanceof Date\<close> never holds: a timestamp is written as a
  plain string, at the root and below a record alike, and not as an object with
  \<^verbatim>\<open>_type: "Date"\<close>. Given a \<^verbatim>\<open>Date\<close> object, the replacer itself would build that object.
\<close>

theorem flat_codec_writes_timestamp_as_string:
  "SimpleSerializer_serialize (Suc n) a_date (VRef 0)
     = Returns (Some (Text (JStr ''2024-01-01T00:00:00.000Z'')))
   \<and> SimpleSerializer_serialize (Suc (Suc (Suc n))) a_date (VRef 1)
     = Returns (Some (Text (JObj [(''at'', JStr ''2024-01-01T00:00:00.000Z'')])))
   \<and> fst (replacer a_date (Raw (VRef 0)) {})
     = Returns (TObj [(''_type'', Raw (VStr ''Date'')),
                      (''value'', Raw (VStr ''2024-01-01T00:00:00.000Z''))])"
  by (simp add: SimpleSerializer_serialize_def a_date_def toJSON_def replacer_def
      own_enumerable_keys_def read_def find_prop_def)

end
